theory Spec2Isabelle
  imports Main "HOL-Library.Word" "HOL-Library.Signed_Division" "HOL-Library.Sublist"
begin

section \<open>Data model\<close>

text \<open>
  Go's \<open>int\<close> (at the width it has on 64-bit platforms), \<open>int64\<close> and \<open>uint64\<close> are
  64-bit words; \<open>sint\<close> reads the signed ones. A \<open>time.Time\<close> is the instant it
  denotes, in nanoseconds since the Unix epoch (the monotonic clock reading and the
  location are left out); a \<open>time.Duration\<close> is an \<open>int64\<close> count of nanoseconds.
  Strings are byte sequences. The length of a slice is a natural number; where the source
  computes with it, it is read as a machine integer.
\<close>

type_synonym go_int = "64 word"
type_synonym go_time = int
type_synonym go_duration = "64 word"

text \<open>The runtime panics that the modelled functions can raise.\<close>

datatype panic =
    MakeSliceCapOutOfRange
  | MakeChanSizeOutOfRange
  | SliceBoundsOutOfRange
  | SendOnClosedChannel
  | CloseOfClosedChannel

text \<open>
  \<open>models.LogEntry\<close>. The metadata values are \<open>interface{}\<close> in the source; no
  modelled function reads them, and they are kept as strings.
\<close>

record LogEntry =
  ID :: string
  Timestamp :: go_time
  Level :: string
  Message :: string
  Service :: string
  Metadata :: "(string \<times> string) list"

text \<open>
  \<open>t.Unix()\<close> is the number of whole seconds since the epoch, rounded down;
  Go's \<open>/\<close> on integers truncates towards zero.
\<close>

definition Unix :: "go_time \<Rightarrow> int" where
  "Unix t = t div 1000000000"

definition timeBucket :: "go_time \<Rightarrow> int" where
  "timeBucket t = Unix t sdiv 60"

definition Before :: "go_time \<Rightarrow> go_time \<Rightarrow> bool" where
  "Before t u = (t < u)"

definition After :: "go_time \<Rightarrow> go_time \<Rightarrow> bool" where
  "After t u = (t > u)"

text \<open>\<open>t.Add(d)\<close>\<close>

definition Add :: "go_time \<Rightarrow> go_duration \<Rightarrow> go_time" where
  "Add t d = t + sint d"

text \<open>
  A buffered channel, seen by the sending goroutine: the queued values, the capacity and
  whether \<open>close\<close> has been called. Receives are steps of other goroutines and none is
  interleaved with the calls modelled below; a value that the runtime hands straight to a
  parked receiver is seen as queued and then received. On a channel without a buffer
  (capacity 0) a send succeeds exactly when a receiver is parked, which this record does
  not show: what is proved about sends is stated for channels with room or with a
  capacity of at least 1.
\<close>

record 'a chan =
  buf :: "'a list"
  cap :: nat
  closed :: bool

text \<open>
  \<open>make(chan T, size)\<close> panics on a negative size and on a size beyond what the runtime
  can allocate for the element type; that bound depends on the platform and is the
  parameter \<open>lim\<close>.
\<close>

definition make_chan :: "int \<Rightarrow> go_int \<Rightarrow> panic + 'a chan" where
  "make_chan lim n =
     (if n <s 0 \<or> lim < sint n then Inl MakeChanSizeOutOfRange
      else Inr \<lparr>buf = [], cap = nat (sint n), closed = False\<rparr>)"

text \<open>
  \<open>select { case ch <- v: ... default: ... }\<close>: a send on a closed channel panics;
  otherwise the value is queued when there is room (\<open>True\<close>), and the default branch
  is taken when there is none (\<open>False\<close>).
\<close>

definition try_send :: "'a chan \<Rightarrow> 'a \<Rightarrow> panic + (bool \<times> 'a chan)" where
  "try_send ch v =
     (if closed ch then Inl SendOnClosedChannel
      else if length (buf ch) < cap ch then Inr (True, ch\<lparr>buf := buf ch @ [v]\<rparr>)
      else Inr (False, ch))"

text \<open>\<open>close(ch)\<close>\<close>

definition close_chan :: "'a chan \<Rightarrow> panic + 'a chan" where
  "close_chan ch = (if closed ch then Inl CloseOfClosedChannel else Inr (ch\<lparr>closed := True\<rparr>))"

section \<open>The in-memory store\<close>

text \<open>
  \<open>storage.MemoryStore\<close>: the slice of entries, the two index maps (a missing key reads
  as the nil slice) and the capacity. The locks are left out: every operation below is
  one critical section.
\<close>

record MemoryStore =
  logs :: "LogEntry list"
  indexByLevel :: "string \<rightharpoonup> nat list"
  buckets :: "int \<rightharpoonup> nat list"
  maxLogs :: go_int

text \<open>
  \<open>make([]T, 0, maxLogs)\<close> panics on a negative capacity and on a capacity beyond what
  the runtime can allocate for the element type; that bound depends on the platform and
  is the parameter \<open>lim\<close>.
\<close>

definition NewMemoryStore :: "int \<Rightarrow> go_int \<Rightarrow> panic + MemoryStore" where
  "NewMemoryStore lim n =
     (if n <s 0 \<or> lim < sint n then Inl MakeSliceCapOutOfRange
      else Inr \<lparr>logs = [], indexByLevel = Map.empty, buckets = Map.empty, maxLogs = n\<rparr>)"

text \<open>\<open>m[k] = append(m[k], idx)\<close>\<close>

definition index_append :: "('k \<rightharpoonup> nat list) \<Rightarrow> 'k \<Rightarrow> nat \<Rightarrow> ('k \<rightharpoonup> nat list)" where
  "index_append m k idx = m(k \<mapsto> (case m k of None \<Rightarrow> [] | Some is \<Rightarrow> is) @ [idx])"

text \<open>The loop of \<open>rebuildIndices\<close>, from position \<open>idx\<close> on.\<close>

fun rebuild_loop ::
  "nat \<Rightarrow> LogEntry list \<Rightarrow> (string \<rightharpoonup> nat list) \<times> (int \<rightharpoonup> nat list)
     \<Rightarrow> (string \<rightharpoonup> nat list) \<times> (int \<rightharpoonup> nat list)" where
  "rebuild_loop idx [] (lv, tb) = (lv, tb)"
| "rebuild_loop idx (log # rest) (lv, tb) =
     rebuild_loop (Suc idx) rest
       (index_append lv (Level log) idx, index_append tb (timeBucket (Timestamp log)) idx)"

definition rebuildIndices :: "MemoryStore \<Rightarrow> MemoryStore" where
  "rebuildIndices ms =
     (case rebuild_loop 0 (logs ms) (Map.empty, Map.empty) of
        (lv, tb) \<Rightarrow> ms\<lparr>indexByLevel := lv, buckets := tb\<rparr>)"

text \<open>\<open>s[low:]\<close> panics unless \<open>0 \<le> low \<le> len(s)\<close>.\<close>

definition slice_from :: "'a list \<Rightarrow> int \<Rightarrow> panic + 'a list" where
  "slice_from s low =
     (if low < 0 \<or> int (length s) < low then Inl SliceBoundsOutOfRange
      else Inr (drop (nat low) s))"

definition evictOldest :: "MemoryStore \<Rightarrow> panic + MemoryStore" where
  "evictOldest ms =
     (let evictCount = sint (maxLogs ms) sdiv 5
      in case slice_from (logs ms) evictCount of
           Inl p \<Rightarrow> Inl p
         | Inr rest \<Rightarrow> Inr (rebuildIndices (ms\<lparr>logs := rest\<rparr>)))"

definition Store :: "MemoryStore \<Rightarrow> LogEntry \<Rightarrow> panic + MemoryStore" where
  "Store ms entry =
     (let idx = length (logs ms);
          ms1 = ms\<lparr>logs := logs ms @ [entry]\<rparr>;
          ms2 = ms1\<lparr>indexByLevel := index_append (indexByLevel ms1) (Level entry) idx\<rparr>;
          ms3 = ms2\<lparr>buckets := index_append (buckets ms2) (timeBucket (Timestamp entry)) idx\<rparr>
      in if sint (maxLogs ms3) < int (length (logs ms3)) then evictOldest ms3 else Inr ms3)"

text \<open>A sequence of \<open>Store\<close> calls; a panic ends it.\<close>

fun Store_all :: "MemoryStore \<Rightarrow> LogEntry list \<Rightarrow> panic + MemoryStore" where
  "Store_all ms [] = Inr ms"
| "Store_all ms (e # es) =
     (case Store ms e of Inl p \<Rightarrow> Inl p | Inr ms' \<Rightarrow> Store_all ms' es)"

definition Count :: "MemoryStore \<Rightarrow> nat" where
  "Count ms = length (logs ms)"

text \<open>
  \<open>GetRecent\<close>: \<open>len(ms.logs) - n\<close> is computed on machine integers and wraps.
\<close>

definition GetRecent :: "MemoryStore \<Rightarrow> go_int \<Rightarrow> panic + LogEntry list" where
  "GetRecent ms n =
     (let start0 = (word_of_nat (length (logs ms)) :: go_int) - n;
          start = (if start0 <s 0 then 0 else start0)
      in slice_from (logs ms) (sint start))"

text \<open>The loop over one bucket's positions in \<open>GetByTimeRange\<close>.\<close>

fun range_loop ::
  "LogEntry list \<Rightarrow> go_time \<Rightarrow> go_time \<Rightarrow> nat list \<Rightarrow> LogEntry list \<Rightarrow> LogEntry list" where
  "range_loop ls start end [] result = result"
| "range_loop ls start end (idx # rest) result =
     (if idx < length ls then
        (let log = ls ! idx
         in if \<not> Before (Timestamp log) start \<and> \<not> After (Timestamp log) end
            then range_loop ls start end rest (result @ [log])
            else range_loop ls start end rest result)
      else range_loop ls start end rest result)"

text \<open>The loop over the buckets.\<close>

fun bucket_loop ::
  "MemoryStore \<Rightarrow> go_time \<Rightarrow> go_time \<Rightarrow> int list \<Rightarrow> LogEntry list \<Rightarrow> LogEntry list" where
  "bucket_loop ms start end [] result = result"
| "bucket_loop ms start end (b # bs) result =
     (case buckets ms b of
        None \<Rightarrow> bucket_loop ms start end bs result
      | Some indices \<Rightarrow>
          bucket_loop ms start end bs (range_loop (logs ms) start end indices result))"

definition GetByTimeRange :: "MemoryStore \<Rightarrow> go_time \<Rightarrow> go_time \<Rightarrow> LogEntry list" where
  "GetByTimeRange ms start end =
     (let startBucket = timeBucket start; endBucket = timeBucket end
      in bucket_loop ms start end [startBucket..endBucket] [])"

section \<open>The alert manager\<close>

text \<open>
  \<open>alerting.AlertRule\<close> and \<open>alerting.Alert\<close>. Field names that another record already
  uses carry a suffix: \<open>Level_r\<close> is \<open>AlertRule.Level\<close>; \<open>Message_a\<close>, \<open>Count_a\<close> and
  \<open>Timestamp_a\<close> are \<open>Alert.Message\<close>, \<open>Alert.Count\<close> and \<open>Alert.Timestamp\<close>.
\<close>

record AlertRule =
  Name :: string
  Level_r :: string
  Threshold :: go_int
  Window :: go_duration
  Pattern :: string

record Alert =
  RuleName :: string
  Message_a :: string
  Count_a :: go_int
  Timestamp_a :: go_time

record logEntry =
  timestamp :: go_time
  level :: string
  message :: string

text \<open>
  \<open>alerting.AlertManager\<close> without the mutex and the callback: \<open>ProcessLog\<close> is one
  critical section, and the callback runs in the consumer goroutine, which receives from
  \<open>alertChannel\<close> and is not part of these definitions.
\<close>

record AlertManager =
  rules :: "AlertRule list"
  alertChannel :: "Alert chan"
  recentLogs :: "logEntry list"

definition NewAlertManager :: AlertManager where
  "NewAlertManager =
     \<lparr>rules = [], alertChannel = \<lparr>buf = [], cap = 100, closed = False\<rparr>, recentLogs = []\<rparr>"

definition AddRule :: "AlertManager \<Rightarrow> AlertRule \<Rightarrow> AlertManager" where
  "AddRule am rule = am\<lparr>rules := rules am @ [rule]\<rparr>"

text \<open>The loop of \<open>contains\<close>, from position \<open>i\<close> on.\<close>

function contains_loop :: "string \<Rightarrow> string \<Rightarrow> nat \<Rightarrow> bool" where
  "contains_loop s substr i =
     (if int i \<le> int (length s) - int (length substr) then
        (if take (length substr) (drop i s) = substr then True
         else contains_loop s substr (Suc i))
      else False)"
  by pat_completeness auto
termination
  by (relation "measure (\<lambda>(s, substr, i). Suc (length s) - i)") auto

declare contains_loop.simps [simp del]

definition contains :: "string \<Rightarrow> string \<Rightarrow> bool" where
  "contains s substr = contains_loop s substr 0"

definition containsPattern :: "string \<Rightarrow> string \<Rightarrow> bool" where
  "containsPattern msg pattern =
     (length pattern = 0 \<or> (length pattern \<le> length msg \<and> contains msg pattern))"

text \<open>\<open>time.Minute\<close>\<close>

definition Minute :: go_duration where
  "Minute = 60000000000"

text \<open>The loop of \<open>getMaxWindow\<close>.\<close>

fun maxWindow_loop :: "AlertRule list \<Rightarrow> go_duration \<Rightarrow> go_duration" where
  "maxWindow_loop [] mx = mx"
| "maxWindow_loop (rule # rest) mx =
     (if mx <s Window rule then maxWindow_loop rest (Window rule) else maxWindow_loop rest mx)"

definition getMaxWindow :: "AlertManager \<Rightarrow> go_duration" where
  "getMaxWindow am = maxWindow_loop (rules am) Minute"

text \<open>The loop of \<open>cleanOldLogs\<close>.\<close>

fun clean_loop :: "logEntry list \<Rightarrow> go_time \<Rightarrow> logEntry list \<Rightarrow> logEntry list" where
  "clean_loop [] cutoff result = result"
| "clean_loop (log # rest) cutoff result =
     (if After (timestamp log) cutoff then clean_loop rest cutoff (result @ [log])
      else clean_loop rest cutoff result)"

definition cleanOldLogs :: "logEntry list \<Rightarrow> go_time \<Rightarrow> logEntry list" where
  "cleanOldLogs ls cutoff = clean_loop ls cutoff []"

text \<open>The counting loop of \<open>shouldTriggerAlert\<close>.\<close>

fun count_loop :: "logEntry list \<Rightarrow> AlertRule \<Rightarrow> go_time \<Rightarrow> nat \<Rightarrow> nat" where
  "count_loop [] rule windowStart count = count"
| "count_loop (log # rest) rule windowStart count =
     (if After (timestamp log) windowStart then
        (if level log = Level_r rule then
           (if Pattern rule = [] \<or> containsPattern (message log) (Pattern rule)
            then count_loop rest rule windowStart (Suc count)
            else count_loop rest rule windowStart count)
         else count_loop rest rule windowStart count)
      else count_loop rest rule windowStart count)"

text \<open>
  \<open>shouldTriggerAlert\<close>, with the reading \<open>now\<close> that its \<open>time.Now()\<close> returns.
\<close>

definition shouldTriggerAlert :: "AlertManager \<Rightarrow> AlertRule \<Rightarrow> go_time \<Rightarrow> bool" where
  "shouldTriggerAlert am rule now =
     (let windowStart = Add now (- Window rule);
          count = count_loop (recentLogs am) rule windowStart 0
      in sint (Threshold rule) \<le> int count)"

text \<open>\<open>%d\<close> of \<open>fmt.Sprintf\<close>: the decimal digits, with a minus sign for a negative value.\<close>

definition digit :: "nat \<Rightarrow> char" where
  "digit n = ''0123456789'' ! n"

function show_nat :: "nat \<Rightarrow> string" where
  "show_nat n =
     (if n < 10 then [digit n]
      else show_nat (n div 10) @ [digit (n mod 10)])"
  by pat_completeness auto
termination
  by (relation "measure id") auto

declare show_nat.simps [simp del]

definition fmt_d :: "int \<Rightarrow> string" where
  "fmt_d i = (if i < 0 then CHR ''-'' # show_nat (nat (- i)) else show_nat (nat i))"

text \<open>
  The message of an alert. \<open>fmt_v\<close> stands for \<open>%v\<close> on a \<open>time.Duration\<close>, which is the
  standard library's \<open>Duration.String\<close>.
\<close>

definition alert_message :: "(go_duration \<Rightarrow> string) \<Rightarrow> AlertRule \<Rightarrow> string" where
  "alert_message fmt_v rule =
     ''Alert: '' @ Name rule @ '' triggered! '' @ fmt_d (sint (Threshold rule)) @ '' ''
       @ Level_r rule @ '' logs in last '' @ fmt_v (Window rule)"

text \<open>
  The readings of \<open>time.Now()\<close> during one \<open>ProcessLog\<close> call, by the place that takes
  them: the cutoff, the evaluation of the rule at position \<open>i\<close>, and the timestamp of the
  alert of the rule at position \<open>i\<close>.
\<close>

record clock =
  atClean :: go_time
  atRule :: "nat \<Rightarrow> go_time"
  atAlert :: "nat \<Rightarrow> go_time"

text \<open>The loop over the rules in \<open>ProcessLog\<close>, from the rule at position \<open>i\<close> on.\<close>

fun check_rules ::
  "(go_duration \<Rightarrow> string) \<Rightarrow> clock \<Rightarrow> nat \<Rightarrow> AlertRule list \<Rightarrow> AlertManager
     \<Rightarrow> panic + AlertManager" where
  "check_rules fmt_v clk i [] am = Inr am"
| "check_rules fmt_v clk i (rule # rest) am =
     (if shouldTriggerAlert am rule (atRule clk i) then
        (let alert = \<lparr>RuleName = Name rule, Message_a = alert_message fmt_v rule,
                       Count_a = Threshold rule, Timestamp_a = atAlert clk i\<rparr>
         in case try_send (alertChannel am) alert of
              Inl p \<Rightarrow> Inl p
            | Inr (sent, ch) \<Rightarrow> check_rules fmt_v clk (Suc i) rest (am\<lparr>alertChannel := ch\<rparr>))
      else check_rules fmt_v clk (Suc i) rest am)"

definition ProcessLog ::
  "(go_duration \<Rightarrow> string) \<Rightarrow> AlertManager \<Rightarrow> LogEntry \<Rightarrow> clock \<Rightarrow> panic + AlertManager" where
  "ProcessLog fmt_v am log clk =
     (let am1 = am\<lparr>recentLogs := recentLogs am
                   @ [\<lparr>timestamp = Timestamp log, level = Level log, message = Message log\<rparr>]\<rparr>;
          maxWindow = getMaxWindow am1;
          cutoff = Add (atClean clk) (- maxWindow);
          am2 = am1\<lparr>recentLogs := cleanOldLogs (recentLogs am1) cutoff\<rparr>
      in check_rules fmt_v clk 0 (rules am2) am2)"

section \<open>The ingestor\<close>

text \<open>
  \<open>ingestion.Stats\<close> and \<open>ingestion.Ingestor\<close>. The store and the alert manager are
  pointers in the source and are held by value here; the wait group is left out.
\<close>

record Stats =
  TotalProcessed :: "64 word"
  TotalDropped :: "64 word"
  StartTime :: go_time

record Ingestor =
  store :: MemoryStore
  alertManager :: "AlertManager option"
  logChannel :: "LogEntry chan"
  workerCount :: go_int
  stats :: Stats
  shutdown :: "unit chan"

text \<open>
  \<open>NewIngestor\<close>, with the reading \<open>now\<close> of its \<open>time.Now()\<close> and the allocation bound
  \<open>lim\<close> of \<open>make\<close>.
\<close>

definition NewIngestor ::
  "int \<Rightarrow> MemoryStore \<Rightarrow> AlertManager option \<Rightarrow> go_int \<Rightarrow> go_int \<Rightarrow> go_time
     \<Rightarrow> panic + Ingestor" where
  "NewIngestor lim st alertMgr wc bufferSize now =
     (case make_chan lim bufferSize of
        Inl p \<Rightarrow> Inl p
      | Inr ch \<Rightarrow>
          Inr \<lparr>store = st, alertManager = alertMgr, logChannel = ch, workerCount = wc,
               stats = \<lparr>TotalProcessed = 0, TotalDropped = 0, StartTime = now\<rparr>,
               shutdown = \<lparr>buf = [], cap = 0, closed = False\<rparr>\<rparr>)"

definition Ingest :: "Ingestor \<Rightarrow> LogEntry \<Rightarrow> panic + (bool \<times> Ingestor)" where
  "Ingest ing entry =
     (case try_send (logChannel ing) entry of
        Inl p \<Rightarrow> Inl p
      | Inr (sent, ch) \<Rightarrow>
          (if sent then Inr (True, ing\<lparr>logChannel := ch\<rparr>)
           else Inr (False,
                  ing\<lparr>stats := (stats ing)\<lparr>TotalDropped := TotalDropped (stats ing) + 1\<rparr>\<rparr>)))"

text \<open>\<open>Stop\<close>, up to the wait for the workers.\<close>

definition Stop :: "Ingestor \<Rightarrow> panic + Ingestor" where
  "Stop ing =
     (case close_chan (shutdown ing) of
        Inl p \<Rightarrow> Inl p
      | Inr sd \<Rightarrow>
          (case close_chan (logChannel ing) of
             Inl p \<Rightarrow> Inl p
           | Inr ch \<Rightarrow> Inr (ing\<lparr>shutdown := sd, logChannel := ch\<rparr>)))"

section \<open>The time index that a sequence of entries determines\<close>

text \<open>
  The positions of the entries of one bucket, in ascending order, and the map from every
  bucket that has an entry to its positions.
\<close>

definition bucket_positions :: "LogEntry list \<Rightarrow> int \<Rightarrow> nat list" where
  "bucket_positions ls b = filter (\<lambda>i. timeBucket (Timestamp (ls ! i)) = b) [0..<length ls]"

definition tindex_of :: "LogEntry list \<Rightarrow> (int \<rightharpoonup> nat list)" where
  "tindex_of ls = (\<lambda>b. if bucket_positions ls b = [] then None else Some (bucket_positions ls b))"

section \<open>The evaluator as the specification words it\<close>

text \<open>
  The count of the specification: the window entries of the rule's level whose message
  matches the pattern and whose timestamp lies in the closed interval from
  \<open>now - window\<close> to \<open>now\<close>.
\<close>

definition spec_window_count :: "logEntry list \<Rightarrow> AlertRule \<Rightarrow> go_time \<Rightarrow> nat" where
  "spec_window_count window rule now =
     length (filter (\<lambda>l. level l = Level_r rule
                        \<and> (Pattern rule = [] \<or> sublist (Pattern rule) (message l))
                        \<and> now - sint (Window rule) \<le> timestamp l \<and> timestamp l \<le> now)
               window)"

text \<open>
  The retention horizon of the specification: the widest configured window, and one
  minute when no rule is configured; the pruning removes the entries older than
  \<open>now\<close> minus the horizon.
\<close>

definition spec_horizon :: "AlertRule list \<Rightarrow> int" where
  "spec_horizon rs =
     (if rs = [] then 60000000000 else Max ((\<lambda>r. sint (Window r)) ` set rs))"

definition spec_pruned :: "logEntry list \<Rightarrow> go_time \<Rightarrow> AlertRule list \<Rightarrow> logEntry list" where
  "spec_pruned window now rs =
     filter (\<lambda>l. \<not> timestamp l < now - spec_horizon rs) window"

section \<open>Sample inputs\<close>

definition sample_entry :: "string \<Rightarrow> go_time \<Rightarrow> string \<Rightarrow> string \<Rightarrow> LogEntry" where
  "sample_entry i t l m =
     \<lparr>ID = i, Timestamp = t, Level = l, Message = m, Service = ''svc'', Metadata = []\<rparr>"

definition sample_lim :: int where
  "sample_lim = 1000000000000"

definition empty_store :: "go_int \<Rightarrow> MemoryStore" where
  "empty_store n = \<lparr>logs = [], indexByLevel = Map.empty, buckets = Map.empty, maxLogs = n\<rparr>"

definition one_entry_store :: MemoryStore where
  "one_entry_store =
     \<lparr>logs = [sample_entry ''a'' 10 ''INFO'' ''x''],
      indexByLevel = [''INFO'' \<mapsto> [0]], buckets = [0 \<mapsto> [0]], maxLogs = 10\<rparr>"

definition numbered_entry :: "nat \<Rightarrow> LogEntry" where
  "numbered_entry i = sample_entry (show_nat i) (int i * 1000000000) ''INFO'' ''msg''"

definition numbered_entries :: "nat \<Rightarrow> nat \<Rightarrow> LogEntry list" where
  "numbered_entries m n = map numbered_entry [m..<n]"

definition range_entries :: "LogEntry list" where
  "range_entries =
     [sample_entry ''a'' 0 ''INFO'' ''before'',
      sample_entry ''b'' 60000000000 ''ERROR'' ''at start'',
      sample_entry ''c'' 120000000000 ''INFO'' ''at end'',
      sample_entry ''d'' 180000000000 ''ERROR'' ''after'']"

definition range_store :: MemoryStore where
  "range_store =
     \<lparr>logs = range_entries,
      indexByLevel = [''INFO'' \<mapsto> [0, 2], ''ERROR'' \<mapsto> [1, 3]],
      buckets = [0 \<mapsto> [0], 1 \<mapsto> [1], 2 \<mapsto> [2], 3 \<mapsto> [3]],
      maxLogs = 10\<rparr>"

text \<open>
  Sample inputs for the alert manager: one rule, entries and their summaries, a manager
  holding that rule and a given window, and the clock readings of one call. The rendering
  of durations is given for the two windows that occur.
\<close>

definition sample_fmt_v :: "go_duration \<Rightarrow> string" where
  "sample_fmt_v d =
     (if d = 30000000000 then ''30s'' else if d = 60000000000 then ''1m0s'' else ''?'')"

definition error_rule :: "go_int \<Rightarrow> AlertRule" where
  "error_rule n =
     \<lparr>Name = ''errors'', Level_r = ''ERROR'', Threshold = n, Window = 30000000000,
      Pattern = []\<rparr>"

definition error_at :: "int \<Rightarrow> LogEntry" where
  "error_at secs = sample_entry ''e'' (secs * 1000000000) ''ERROR'' ''boom''"

definition summary_at :: "int \<Rightarrow> logEntry" where
  "summary_at secs = \<lparr>timestamp = secs * 1000000000, level = ''ERROR'', message = ''boom''\<rparr>"

definition am_with :: "go_int \<Rightarrow> logEntry list \<Rightarrow> Alert list \<Rightarrow> AlertManager" where
  "am_with n ls as =
     \<lparr>rules = [error_rule n], alertChannel = \<lparr>buf = as, cap = 100, closed = False\<rparr>,
      recentLogs = ls\<rparr>"

definition clock_at :: "int \<Rightarrow> clock" where
  "clock_at secs =
     \<lparr>atClean = secs * 1000000000,
      atRule = (\<lambda>i. secs * 1000000000 + 1000),
      atAlert = (\<lambda>i. secs * 1000000000 + 2000)\<rparr>"

definition error_alert :: "go_int \<Rightarrow> int \<Rightarrow> Alert" where
  "error_alert n secs =
     \<lparr>RuleName = ''errors'',
      Message_a = ''Alert: errors triggered! '' @ fmt_d (sint n) @ '' ERROR logs in last 30s'',
      Count_a = n, Timestamp_a = secs * 1000000000 + 2000\<rparr>"

text \<open>
  Sample ingestors: queue capacity 2, a given worker count, queue content, closed flag of
  both channels and dropped count.
\<close>

definition ingestor_with :: "go_int \<Rightarrow> LogEntry list \<Rightarrow> bool \<Rightarrow> 64 word \<Rightarrow> Ingestor" where
  "ingestor_with wc q cl d =
     \<lparr>store = empty_store 10, alertManager = None,
      logChannel = \<lparr>buf = q, cap = 2, closed = cl\<rparr>, workerCount = wc,
      stats = \<lparr>TotalProcessed = 0, TotalDropped = d, StartTime = 0\<rparr>,
      shutdown = \<lparr>buf = [], cap = 0, closed = cl\<rparr>\<rparr>"

section \<open>Machine arithmetic\<close>

lemma stb_self:
  "- 9223372036854775808 \<le> k \<Longrightarrow> k < 9223372036854775808 \<Longrightarrow> signed_take_bit 63 (k::int) = k"
  by (rule signed_take_bit_int_eq_self) simp_all

lemma stb_wrap:
  assumes "9223372036854775808 \<le> k" "k < 18446744073709551616"
  shows "signed_take_bit 63 (k::int) = k - 18446744073709551616"
proof -
  have "signed_take_bit 63 k = take_bit (Suc 63) (k + 2 ^ 63) - 2 ^ 63"
    by (rule signed_take_bit_eq_take_bit_shift)
  also have "take_bit (Suc 63) (k + 2 ^ 63)
      = (k + 9223372036854775808) mod 18446744073709551616"
    by (simp only: take_bit_eq_mod) simp
  also have "(k + 9223372036854775808) mod 18446744073709551616
      = (k + 9223372036854775808 - 18446744073709551616) mod 18446744073709551616"
    by (simp only: mod_diff_right_eq [symmetric, of _ "18446744073709551616"
          "18446744073709551616"] mod_self diff_zero)
  also have "\<dots> = k + 9223372036854775808 - 18446744073709551616"
    using assms by (intro mod_pos_pos_trivial) linarith+
  finally show ?thesis by simp
qed

lemma sint_range64:
  "- 9223372036854775808 \<le> sint (w :: 64 word) \<and> sint w < 9223372036854775808"
  using sint_ge [of w] sint_lt [of w] by simp

lemma sint_len:
  assumes "n < 9223372036854775808"
  shows "sint (word_of_nat n :: 64 word) = int n"
proof -
  have "sint (word_of_nat n :: 64 word) = sint (word_of_int (int n) :: 64 word)" by simp
  also have "\<dots> = signed_take_bit 63 (int n)" by (simp only: sint_sbintrunc') simp
  also have "\<dots> = int n" using assms by (intro stb_self) simp_all
  finally show ?thesis .
qed

lemma sint_len_minus:
  assumes "n < 9223372036854775808"
  shows "sint ((word_of_nat n :: 64 word) - w) = signed_take_bit 63 (int n - sint w)"
  by (simp add: sint_word_diff sint_len [OF assms])

lemma sint_neg64:
  assumes "sint (w :: 64 word) \<noteq> - 9223372036854775808"
  shows "sint (- w) = - sint w"
proof -
  have "sint (- w) = signed_take_bit 63 (- sint w)"
    by (simp add: sint_word_minus)
  also have "\<dots> = - sint w"
    using sint_range64 [of w] assms by (intro stb_self) linarith+
  finally show ?thesis .
qed

section \<open>Properties of the store\<close>

lemma Store_logs_no_evict:
  assumes "int (length (logs ms)) < sint (maxLogs ms)"
  shows "\<exists>ms'. Store ms e = Inr ms' \<and> logs ms' = logs ms @ [e] \<and> maxLogs ms' = maxLogs ms"
  using assms by (simp add: Store_def Let_def)

lemma Store_all_no_evict:
  assumes "int (length (logs ms) + length es) \<le> sint (maxLogs ms)"
  shows "\<exists>ms'. Store_all ms es = Inr ms' \<and> logs ms' = logs ms @ es \<and> maxLogs ms' = maxLogs ms"
  using assms
proof (induction es arbitrary: ms)
  case Nil
  then show ?case by simp
next
  case (Cons e es)
  from Cons.prems have "int (length (logs ms)) < sint (maxLogs ms)" by simp
  from Store_logs_no_evict [OF this, of e] obtain ms1 where
    s: "Store ms e = Inr ms1" and l: "logs ms1 = logs ms @ [e]" and m: "maxLogs ms1 = maxLogs ms"
    by blast
  from Cons.prems l m have "int (length (logs ms1) + length es) \<le> sint (maxLogs ms1)" by simp
  from Cons.IH [OF this] s l show ?case by (auto simp: m)
qed

lemma rebuildIndices_logs [simp]:
  "logs (rebuildIndices ms) = logs ms" "maxLogs (rebuildIndices ms) = maxLogs ms"
  by (simp_all add: rebuildIndices_def split: prod.splits)

lemma sdiv_nonneg: "0 \<le> k \<Longrightarrow> k sdiv 5 = k div (5::int)"
  by (cases "k = 0") (simp_all add: signed_divide_int_def sgn_if)

lemma Store_logs:
  assumes "0 \<le> sint (maxLogs ms)"
  shows "\<exists>ms'. Store ms e = Inr ms' \<and> maxLogs ms' = maxLogs ms \<and>
           logs ms' = (if sint (maxLogs ms) < int (length (logs ms)) + 1
                       then drop (nat (sint (maxLogs ms) div 5)) (logs ms @ [e])
                       else logs ms @ [e])"
proof (cases "sint (maxLogs ms) < int (length (logs ms)) + 1")
  case True
  have "sint (maxLogs ms) div 5 \<le> sint (maxLogs ms)" using assms by simp
  with True assms show ?thesis
    by (simp add: Store_def Let_def evictOldest_def slice_from_def sdiv_nonneg)
next
  case False
  then show ?thesis by (simp add: Store_def Let_def)
qed

lemma Store_all_append:
  "Store_all ms (xs @ ys) = (case Store_all ms xs of Inl p \<Rightarrow> Inl p | Inr ms' \<Rightarrow> Store_all ms' ys)"
  by (induction xs arbitrary: ms) (auto split: sum.splits)

lemma Store_all_overflow_by_one:
  assumes "0 \<le> sint (maxLogs ms0)" "logs ms0 = []" "int (length es) = sint (maxLogs ms0) + 1"
  shows "\<exists>ms. Store_all ms0 es = Inr ms \<and> logs ms = drop (nat (sint (maxLogs ms0) div 5)) es"
proof -
  from assms have "es \<noteq> []" by auto
  then obtain xs e where es: "es = xs @ [e]" by (metis rev_exhaust)
  with assms have "int (length (logs ms0) + length xs) \<le> sint (maxLogs ms0)" by simp
  from Store_all_no_evict [OF this] assms(2) obtain ms1 where
    1: "Store_all ms0 xs = Inr ms1" "logs ms1 = xs" "maxLogs ms1 = maxLogs ms0" by auto
  from assms(1) 1 have "0 \<le> sint (maxLogs ms1)" by simp
  from Store_logs [OF this, of e] obtain ms2 where
    2: "Store ms1 e = Inr ms2"
       "logs ms2 = (if sint (maxLogs ms1) < int (length (logs ms1)) + 1
                       then drop (nat (sint (maxLogs ms1) div 5)) (logs ms1 @ [e])
                       else logs ms1 @ [e])" by blast
  from assms(3) es 1 have "sint (maxLogs ms1) < int (length (logs ms1)) + 1" by simp
  with 2 1 es have "logs ms2 = drop (nat (sint (maxLogs ms0) div 5)) es" by simp
  moreover have "Store_all ms0 es = Inr ms2" by (simp add: es Store_all_append 1 2)
  ultimately show ?thesis by blast
qed

lemma Store_bounded:
  assumes "5 \<le> sint (maxLogs ms)" "int (length (logs ms)) \<le> sint (maxLogs ms)"
  shows "\<exists>ms'. Store ms e = Inr ms' \<and> maxLogs ms' = maxLogs ms \<and> int (length (logs ms')) \<le> sint (maxLogs ms)"
proof -
  from assms have "0 \<le> sint (maxLogs ms)" by simp
  from Store_logs [OF this, of e] obtain ms' where
    s: "Store ms e = Inr ms'" "maxLogs ms' = maxLogs ms"
     "logs ms' = (if sint (maxLogs ms) < int (length (logs ms)) + 1
                       then drop (nat (sint (maxLogs ms) div 5)) (logs ms @ [e])
                       else logs ms @ [e])" by blast
  have "1 \<le> sint (maxLogs ms) div 5" using assms(1) by simp
  with assms s have "int (length (logs ms')) \<le> sint (maxLogs ms)" by (auto split: if_splits)
  with s show ?thesis by blast
qed

lemma Store_all_bounded:
  assumes "5 \<le> sint (maxLogs ms)" "int (length (logs ms)) \<le> sint (maxLogs ms)"
  shows "\<exists>ms'. Store_all ms es = Inr ms' \<and> maxLogs ms' = maxLogs ms \<and> int (length (logs ms')) \<le> sint (maxLogs ms)"
  using assms
proof (induction es arbitrary: ms)
  case Nil
  then show ?case by simp
next
  case (Cons e es)
  from Store_bounded [OF Cons.prems, of e] obtain ms1 where
    1: "Store ms e = Inr ms1" "maxLogs ms1 = maxLogs ms" "int (length (logs ms1)) \<le> sint (maxLogs ms)"
    by blast
  with Cons.prems have "5 \<le> sint (maxLogs ms1)" "int (length (logs ms1)) \<le> sint (maxLogs ms1)" by simp_all
  from Cons.IH [OF this] 1 show ?case by auto
qed

lemma Store_all_small_capacity:
  assumes "0 \<le> sint (maxLogs ms)" "sint (maxLogs ms) < 5"
  shows "\<exists>ms'. Store_all ms es = Inr ms' \<and> maxLogs ms' = maxLogs ms \<and> logs ms' = logs ms @ es"
  using assms
proof (induction es arbitrary: ms)
  case Nil
  then show ?case by simp
next
  case (Cons e es)
  from Store_logs [OF Cons.prems(1), of e] Cons.prems obtain ms1 where
    1: "Store ms e = Inr ms1" "maxLogs ms1 = maxLogs ms" "logs ms1 = logs ms @ [e]"
    by auto
  with Cons.prems have "0 \<le> sint (maxLogs ms1)" "sint (maxLogs ms1) < 5" by simp_all
  from Cons.IH [OF this] 1 show ?case by auto
qed

lemma length_numbered_entries [simp]: "length (numbered_entries m n) = n - m"
  by (simp add: numbered_entries_def)

lemma drop_numbered_entries [simp]: "drop k (numbered_entries m n) = numbered_entries (m + k) n"
  by (simp add: numbered_entries_def drop_map)

section \<open>Claims about the store\<close>

text \<open>
  C5: for every sequence of N entries inserted with \<open>Store\<close> into a new store whose
  capacity is at least N, every \<open>Store\<close> call returns, \<open>Count()\<close> is N and
  \<open>GetRecent(N)\<close> returns exactly the inserted entries in insertion order.
\<close>

theorem C5_count_and_recent:
  assumes "NewMemoryStore lim c = Inr ms0" and "int (length es) \<le> sint c"
  shows "\<exists>ms. Store_all ms0 es = Inr ms \<and> Count ms = length es
           \<and> GetRecent ms (word_of_nat (length es)) = Inr es"
proof -
  from assms(1) have l0: "logs ms0 = []" and m0: "maxLogs ms0 = c"
    by (auto simp: NewMemoryStore_def split: if_splits)
  with assms(2) have "int (length (logs ms0) + length es) \<le> sint (maxLogs ms0)" by simp
  from Store_all_no_evict [OF this] l0 obtain ms where
    "Store_all ms0 es = Inr ms" "logs ms = es" by auto
  then show ?thesis
    by (auto simp: Count_def GetRecent_def slice_from_def)
qed

theorem C5_count_and_recent_witness:
  "NewMemoryStore sample_lim 3 = Inr (empty_store 3)
   \<and> int (length [sample_entry ''a'' 10 ''INFO'' ''x'', sample_entry ''b'' 20 ''ERROR'' ''y''])
       \<le> sint (3 :: go_int)
   \<and> (\<exists>ms. Store_all (empty_store 3)
              [sample_entry ''a'' 10 ''INFO'' ''x'', sample_entry ''b'' 20 ''ERROR'' ''y''] = Inr ms
          \<and> Count ms = 2
          \<and> GetRecent ms 2
              = Inr [sample_entry ''a'' 10 ''INFO'' ''x'', sample_entry ''b'' 20 ''ERROR'' ''y''])"
proof -
  have n: "NewMemoryStore sample_lim 3 = Inr (empty_store 3)"
    by (simp add: NewMemoryStore_def empty_store_def sample_lim_def word_sless_alt)
  have l: "int (length [sample_entry ''a'' 10 ''INFO'' ''x'', sample_entry ''b'' 20 ''ERROR'' ''y''])
             \<le> sint (3 :: go_int)"
    by simp
  from C5_count_and_recent [OF n l] n l show ?thesis by (simp add: numeral_2_eq_2)
qed

text \<open>
  C1, as stated, fails: with capacity 100000 the eviction triggered by the 100001st
  \<open>Store\<close> call drops 20000 of 100001 entries, so \<open>Count()\<close> is 80001, not 80000, and
  the survivors are the most recent 80001 entries.
\<close>

theorem C1_count_is_80001:
  "NewMemoryStore sample_lim 100000 = Inr (empty_store 100000)
   \<and> map_sum id Count (Store_all (empty_store 100000) (numbered_entries 0 100001))
       = Inr 80001
   \<and> map_sum id Count (Store_all (empty_store 100000) (numbered_entries 0 100001))
       \<noteq> Inr 80000
   \<and> map_sum id logs (Store_all (empty_store 100000) (numbered_entries 0 100001))
       = Inr (numbered_entries 20000 100001)"
proof -
  have n: "NewMemoryStore sample_lim 100000 = Inr (empty_store 100000)"
    by (simp add: NewMemoryStore_def empty_store_def sample_lim_def word_sless_alt)
  have "\<exists>ms. Store_all (empty_store 100000) (numbered_entries 0 100001) = Inr ms
          \<and> logs ms = drop (nat (sint (maxLogs (empty_store 100000)) div 5))
                (numbered_entries 0 100001)"
    by (rule Store_all_overflow_by_one) (simp_all add: empty_store_def)
  then obtain ms where
    "Store_all (empty_store 100000) (numbered_entries 0 100001) = Inr ms"
    "logs ms = numbered_entries 20000 100001"
    by (auto simp: empty_store_def)
  with n show ?thesis by (simp add: Count_def)
qed

text \<open>
  C1, amended: after capacity+1 entries are inserted into a new store whose capacity is
  at least 5, every \<open>Store\<close> call has returned, \<open>Count()\<close> is at most the capacity, the
  oldest capacity/5 entries (rounded down: 20% of the capacity) are gone and the survivors
  are exactly the remaining, most recent entries in arrival order, capacity + 1 -
  capacity/5 of them. For capacity 100000, \<open>Count()\<close> is 80001 and the survivors are the
  most recent 80001 entries.
\<close>

theorem C1_eviction_at_capacity_plus_one:
  assumes "NewMemoryStore lim c = Inr ms0" and "5 \<le> sint c"
    and "int (length es) = sint c + 1"
  shows "\<exists>ms. Store_all ms0 es = Inr ms
           \<and> int (Count ms) \<le> sint c
           \<and> logs ms = drop (nat (sint c div 5)) es
           \<and> Count ms = length es - nat (sint c div 5)
           \<and> (c = 100000 \<longrightarrow> Count ms = 80001)"
proof -
  from assms(1) have l0: "logs ms0 = []" and m0: "maxLogs ms0 = c"
    by (auto simp: NewMemoryStore_def split: if_splits)
  from assms(2) m0 have "0 \<le> sint (maxLogs ms0)" by simp
  moreover from assms(3) m0 have "int (length es) = sint (maxLogs ms0) + 1" by simp
  ultimately obtain ms where
    s: "Store_all ms0 es = Inr ms" and l: "logs ms = drop (nat (sint c div 5)) es"
    using Store_all_overflow_by_one [OF _ l0] m0 by blast
  have cnt: "Count ms = length es - nat (sint c div 5)"
    by (simp add: Count_def l)
  from assms(2) have "1 \<le> sint c div 5" by simp
  with cnt assms(3) have le: "int (Count ms) \<le> sint c" by linarith
  have "Count ms = 80001" if "c = 100000"
  proof -
    from that assms(3) have "length es = 100001" by simp
    with cnt that show ?thesis by simp
  qed
  with le show ?thesis using s l cnt by blast
qed

theorem C1_eviction_at_capacity_plus_one_witness:
  "NewMemoryStore sample_lim 100000 = Inr (empty_store 100000)
   \<and> int (length (numbered_entries 0 100001)) = sint (100000 :: go_int) + 1
   \<and> 5 \<le> sint (100000 :: go_int)
   \<and> (\<exists>ms. Store_all (empty_store 100000) (numbered_entries 0 100001) = Inr ms
          \<and> logs ms = numbered_entries 20000 100001
          \<and> int (Count ms) \<le> 100000
          \<and> Count ms = 80001)"
proof -
  have n: "NewMemoryStore sample_lim 100000 = Inr (empty_store 100000)"
    by (simp add: NewMemoryStore_def empty_store_def sample_lim_def word_sless_alt)
  have f: "5 \<le> sint (100000 :: go_int)"
    by simp
  have l: "int (length (numbered_entries 0 100001)) = sint (100000 :: go_int) + 1"
    by simp
  from C1_eviction_at_capacity_plus_one [OF n f l] n l show ?thesis
    by auto
qed

text \<open>
  C2: the capacity bound fails for capacities below 5. With capacity 4 the fifth
  \<open>Store\<close> call finds 5 entries, \<open>evictOldest\<close> computes \<open>evictCount = 4 / 5 = 0\<close> and
  drops nothing, and \<open>Count()\<close> is 5 after the call has returned.
\<close>

theorem C2_capacity_four_holds_five:
  "NewMemoryStore sample_lim 4 = Inr (empty_store 4)
   \<and> map_sum id Count (Store_all (empty_store 4) (numbered_entries 0 5)) = Inr 5
   \<and> sint (maxLogs (empty_store 4)) = 4"
proof -
  have n: "NewMemoryStore sample_lim 4 = Inr (empty_store 4)"
    by (simp add: NewMemoryStore_def empty_store_def sample_lim_def word_sless_alt)
  have "\<exists>ms. Store_all (empty_store 4) (numbered_entries 0 5) = Inr ms
          \<and> maxLogs ms = maxLogs (empty_store 4)
          \<and> logs ms = logs (empty_store 4) @ numbered_entries 0 5"
    by (rule Store_all_small_capacity) (simp_all add: empty_store_def)
  then obtain ms where
    "Store_all (empty_store 4) (numbered_entries 0 5) = Inr ms"
    "logs ms = numbered_entries 0 5"
    by (auto simp: empty_store_def)
  with n show ?thesis by (simp add: Count_def empty_store_def)
qed

section \<open>Claims about \<open>GetRecent\<close>\<close>

lemma GetRecent_cases_num:
  assumes "length (logs ms) < 9223372036854775808"
  shows "GetRecent ms n =
     (if 0 \<le>s n then Inr (drop (length (logs ms) - min (nat (sint n)) (length (logs ms))) (logs ms))
      else if int (length (logs ms)) - sint n < 9223372036854775808 then Inl SliceBoundsOutOfRange
      else Inr (logs ms))"
proof -
  let ?len = "length (logs ms)"
  let ?k = "int ?len - sint n"
  have s0: "sint ((word_of_nat ?len :: 64 word) - n) = signed_take_bit 63 ?k"
    by (rule sint_len_minus [OF assms])
  have len: "int ?len < 9223372036854775808" using assms by simp
  note r = sint_range64 [of n]
  show ?thesis
  proof (cases "0 \<le> sint n")
    case True
    then have k: "signed_take_bit 63 ?k = ?k" using r len by (intro stb_self) linarith+
    show ?thesis
    proof (cases "?k < 0")
      case neg: True
      then show ?thesis using True
        by (simp add: GetRecent_def Let_def word_sless_alt word_sle_eq s0 k slice_from_def)
    next
      case False
      with True have "nat (sint n) \<le> ?len" by linarith
      with False show ?thesis using True
        by (simp add: GetRecent_def Let_def word_sless_alt word_sle_eq s0 k slice_from_def nat_diff_distrib min_def)
    qed
  next
    case False
    show ?thesis
    proof (cases "?k < 9223372036854775808")
      case True
      then have k: "signed_take_bit 63 ?k = ?k" using r False by (intro stb_self) linarith+
      show ?thesis using True False
        by (simp add: GetRecent_def Let_def word_sless_alt word_sle_eq s0 k slice_from_def)
    next
      case big: False
      then have k: "signed_take_bit 63 ?k = ?k - 18446744073709551616"
        using r len by (intro stb_wrap) linarith+
      have "?k - 18446744073709551616 < 0" using r len by linarith
      then show ?thesis using big False
        by (simp add: GetRecent_def Let_def word_sless_alt word_sle_eq s0 k slice_from_def)
    qed
  qed
qed

lemma one_entry_store_reached:
  "Store (empty_store 10) (sample_entry ''a'' 10 ''INFO'' ''x'') = Inr one_entry_store"
  by (simp add: Store_def empty_store_def one_entry_store_def sample_entry_def Let_def
      index_append_def timeBucket_def Unix_def)

text \<open>
  C10, as stated, fails: for \<open>n = -2^63\<close> the difference \<open>len(ms.logs) - n\<close> wraps
  around to a negative number, \<open>start\<close> is reset to 0 and the call returns the whole
  sequence instead of panicking.
\<close>

theorem C10_min_int_returns:
  "(- 9223372036854775808 :: go_int) <s 0
   \<and> GetRecent one_entry_store (- 9223372036854775808)
       = Inr [sample_entry ''a'' 10 ''INFO'' ''x'']"
  by (simp add: GetRecent_def one_entry_store_def Let_def slice_from_def word_sless_alt)

text \<open>
  C10, amended: on a store whose length is a machine integer, \<open>GetRecent(n)\<close> returns
  the last \<open>min(n, length)\<close> entries for every \<open>n \<ge> 0\<close>; for \<open>n < 0\<close> it panics with a
  slice bound out of range whenever \<open>length - n\<close> is representable (at most \<open>2^63 - 1\<close>),
  and returns the whole sequence when \<open>length - n\<close> overflows.
\<close>

theorem C10_GetRecent_cases:
  assumes "length (logs ms) < 2 ^ 63"
  shows "GetRecent ms n =
     (if 0 \<le>s n
      then Inr (drop (length (logs ms) - min (nat (sint n)) (length (logs ms))) (logs ms))
      else if int (length (logs ms)) - sint n < 2 ^ 63 then Inl SliceBoundsOutOfRange
      else Inr (logs ms))"
proof -
  from assms have "length (logs ms) < 9223372036854775808" by simp
  from GetRecent_cases_num [OF this, of n] show ?thesis by simp
qed

theorem C10_GetRecent_cases_witness:
  "length (logs one_entry_store) < 2 ^ 63
   \<and> GetRecent one_entry_store 1 = Inr [sample_entry ''a'' 10 ''INFO'' ''x'']
   \<and> GetRecent one_entry_store 0 = Inr []
   \<and> GetRecent one_entry_store (- 1) = Inl SliceBoundsOutOfRange
   \<and> GetRecent one_entry_store (- 9223372036854775808)
       = Inr [sample_entry ''a'' 10 ''INFO'' ''x'']"
proof -
  have h: "length (logs one_entry_store) < 2 ^ 63"
    by (simp add: one_entry_store_def)
  have l: "logs one_entry_store = [sample_entry ''a'' 10 ''INFO'' ''x'']"
    by (simp add: one_entry_store_def)
  show ?thesis
    using h C10_GetRecent_cases [OF h, of 1] C10_GetRecent_cases [OF h, of 0]
      C10_GetRecent_cases [OF h, of "- 1"]
      C10_GetRecent_cases [OF h, of "- 9223372036854775808"]
    by (simp add: l word_sle_eq)
qed

section \<open>Claims about \<open>GetByTimeRange\<close>\<close>

lemma in_range_conv:
  "(\<not> Before t s \<and> \<not> After t e) = (s \<le> t \<and> t \<le> e)"
  by (auto simp: Before_def After_def)

lemma range_loop_eq:
  "range_loop ls s e idxs result =
     result @ map (\<lambda>i. ls ! i)
       (filter (\<lambda>i. i < length ls \<and> s \<le> Timestamp (ls ! i) \<and> Timestamp (ls ! i) \<le> e) idxs)"
  by (induction idxs arbitrary: result) (simp_all add: Let_def in_range_conv)

lemma bucket_loop_eq:
  "bucket_loop ms s e bs result =
     result @ concat (map (\<lambda>b. case buckets ms b of None \<Rightarrow> []
        | Some idxs \<Rightarrow> map (\<lambda>i. logs ms ! i)
            (filter (\<lambda>i. i < length (logs ms) \<and> s \<le> Timestamp (logs ms ! i)
                       \<and> Timestamp (logs ms ! i) \<le> e) idxs)) bs)"
  by (induction bs arbitrary: result) (simp_all add: range_loop_eq split: option.splits)

lemma map_nth_filter:
  "map (\<lambda>i. ls ! i) (filter (\<lambda>i. Q (ls ! i)) [0..<length ls]) = filter Q ls"
proof -
  have "filter Q ls = filter Q (map (\<lambda>i. ls ! i) [0..<length ls])"
    by (simp add: map_nth)
  also have "\<dots> = map (\<lambda>i. ls ! i) (filter (\<lambda>i. Q (ls ! i)) [0..<length ls])"
    by (simp add: filter_map comp_def)
  finally show ?thesis by simp
qed

lemma bucket_hits:
  "map (\<lambda>i. ls ! i)
     (filter (\<lambda>i. i < length ls \<and> s \<le> Timestamp (ls ! i) \<and> Timestamp (ls ! i) \<le> e)
        (bucket_positions ls b))
   = filter (\<lambda>x. timeBucket (Timestamp x) = b \<and> s \<le> Timestamp x \<and> Timestamp x \<le> e) ls"
proof -
  have "filter (\<lambda>i. i < length ls \<and> s \<le> Timestamp (ls ! i) \<and> Timestamp (ls ! i) \<le> e)
          (bucket_positions ls b)
        = filter (\<lambda>i. timeBucket (Timestamp (ls ! i)) = b \<and> s \<le> Timestamp (ls ! i)
                    \<and> Timestamp (ls ! i) \<le> e) [0..<length ls]"
    unfolding bucket_positions_def filter_filter
    by (rule filter_cong) auto
  then show ?thesis
    by (simp add: map_nth_filter [where Q = "\<lambda>x. timeBucket (Timestamp x) = b \<and> s \<le> Timestamp x \<and> Timestamp x \<le> e"])
qed

lemma GetByTimeRange_indexed:
  assumes "buckets ms = tindex_of (logs ms)"
  shows "GetByTimeRange ms s e =
     concat (map (\<lambda>b. filter (\<lambda>x. timeBucket (Timestamp x) = b \<and> s \<le> Timestamp x
                                  \<and> Timestamp x \<le> e) (logs ms))
               [timeBucket s..timeBucket e])"
proof -
  have "(case buckets ms b of None \<Rightarrow> []
        | Some idxs \<Rightarrow> map (\<lambda>i. logs ms ! i)
            (filter (\<lambda>i. i < length (logs ms) \<and> s \<le> Timestamp (logs ms ! i)
                       \<and> Timestamp (logs ms ! i) \<le> e) idxs))
      = filter (\<lambda>x. timeBucket (Timestamp x) = b \<and> s \<le> Timestamp x \<and> Timestamp x \<le> e) (logs ms)"
    for b
  proof (cases "bucket_positions (logs ms) b = []")
    case True
    with bucket_hits [of "logs ms" s e b] show ?thesis
      by (simp add: assms tindex_of_def)
  next
    case False
    with bucket_hits [of "logs ms" s e b] show ?thesis
      by (simp add: assms tindex_of_def)
  qed
  then show ?thesis
    by (simp add: GetByTimeRange_def Let_def bucket_loop_eq)
qed

lemma bucket_positions_snoc:
  "bucket_positions (ls @ [x]) b =
     bucket_positions ls b @ (if timeBucket (Timestamp x) = b then [length ls] else [])"
proof -
  have "filter (\<lambda>i. timeBucket (Timestamp ((ls @ [x]) ! i)) = b) [0..<length ls]
        = filter (\<lambda>i. timeBucket (Timestamp (ls ! i)) = b) [0..<length ls]"
    by (rule filter_cong) (auto simp: nth_append)
  then show ?thesis by (simp add: bucket_positions_def)
qed

lemma tindex_of_snoc:
  "index_append (tindex_of ls) (timeBucket (Timestamp x)) (length ls) = tindex_of (ls @ [x])"
  by (rule ext) (simp add: index_append_def tindex_of_def bucket_positions_snoc)

lemma tindex_of_Nil: "tindex_of [] = Map.empty"
  by (rule ext) (simp add: tindex_of_def bucket_positions_def)

lemma rebuild_loop_tindex:
  "snd (rebuild_loop (length pre) rest (lv, tindex_of pre)) = tindex_of (pre @ rest)"
proof (induction rest arbitrary: pre lv)
  case Nil
  then show ?case by simp
next
  case (Cons x rest)
  from Cons [of "pre @ [x]"] show ?case
    by (simp add: tindex_of_snoc)
qed

lemma rebuildIndices_buckets: "buckets (rebuildIndices ms) = tindex_of (logs ms)"
  using rebuild_loop_tindex [of "[]" "logs ms" Map.empty]
  by (auto simp: rebuildIndices_def tindex_of_Nil split: prod.splits)

lemma Store_time_index:
  assumes "buckets ms = tindex_of (logs ms)" "Store ms x = Inr ms'"
  shows "buckets ms' = tindex_of (logs ms')"
  using assms
  by (auto simp: Store_def Let_def evictOldest_def tindex_of_snoc rebuildIndices_buckets
        split: if_splits sum.splits)

lemma Store_all_time_index:
  assumes "buckets ms = tindex_of (logs ms)" "Store_all ms xs = Inr ms'"
  shows "buckets ms' = tindex_of (logs ms')"
  using assms
proof (induction xs arbitrary: ms)
  case Nil
  then show ?case by simp
next
  case (Cons x xs)
  then show ?case by (auto split: sum.splits dest: Store_time_index)
qed

lemma sdiv_60_nonneg: "0 \<le> k \<Longrightarrow> k sdiv 60 = k div (60::int)"
  by (cases "k = 0") (simp_all add: signed_divide_int_def sgn_if)

lemma sdiv_60_neg: "k < 0 \<Longrightarrow> k sdiv 60 = - ((- k) div (60::int))"
  by (simp add: signed_divide_int_def sgn_if)

lemma sdiv_60_mono:
  assumes "a \<le> b"
  shows "a sdiv 60 \<le> b sdiv (60::int)"
proof -
  consider "0 \<le> a" | "a < 0" "0 \<le> b" | "b < 0" by linarith
  then show ?thesis
  proof cases
    case 1
    with assms have "a div 60 \<le> b div 60" by (intro zdiv_mono1) simp_all
    with 1 assms show ?thesis by (simp add: sdiv_60_nonneg)
  next
    case 2
    have "0 \<le> (- a) div 60" "0 \<le> b div 60" using 2 by simp_all
    with 2 show ?thesis by (simp add: sdiv_60_nonneg sdiv_60_neg)
  next
    case 3
    with assms have "(- b) div 60 \<le> (- a) div 60" by (intro zdiv_mono1) simp_all
    with 3 assms show ?thesis by (simp add: sdiv_60_neg)
  qed
qed

lemma timeBucket_mono: "t \<le> u \<Longrightarrow> timeBucket t \<le> timeBucket u"
  unfolding timeBucket_def Unix_def
  by (intro sdiv_60_mono zdiv_mono1) simp_all

lemma sample_buckets:
  "timeBucket 0 = 0" "timeBucket 60000000000 = 1"
  "timeBucket 120000000000 = 2" "timeBucket 180000000000 = 3"
  by (simp_all add: timeBucket_def Unix_def signed_divide_int_def)

lemma range_store_reached: "Store_all (empty_store 10) range_entries = Inr range_store"
  by (simp add: range_entries_def range_store_def empty_store_def Store_def Let_def
      index_append_def sample_entry_def sample_buckets numeral_2_eq_2 numeral_3_eq_3)

text \<open>
  C6: on every store reached from a new store by \<open>Store\<close> calls,
  \<open>GetByTimeRange(start, end)\<close> returns, bucket by bucket from \<open>bucket(start)\<close> up to
  \<open>bucket(end)\<close>, the stored entries of that bucket whose timestamp \<open>t\<close> satisfies
  \<open>start \<le> t \<le> end\<close>, in arrival order within the bucket. The entries returned are
  exactly the stored entries with \<open>start \<le> t \<le> end\<close>: an entry at \<open>start\<close> or at \<open>end\<close>
  is included, an entry outside is not.
\<close>

theorem C6_GetByTimeRange:
  assumes "NewMemoryStore lim c = Inr ms0" and "Store_all ms0 es = Inr ms"
  shows "GetByTimeRange ms start end =
           concat (map (\<lambda>b. filter (\<lambda>x. timeBucket (Timestamp x) = b
                                     \<and> start \<le> Timestamp x \<and> Timestamp x \<le> end) (logs ms))
                     [timeBucket start..timeBucket end])
         \<and> set (GetByTimeRange ms start end) =
             {x \<in> set (logs ms). start \<le> Timestamp x \<and> Timestamp x \<le> end}"
proof -
  from assms(1) have "buckets ms0 = tindex_of (logs ms0)"
    by (auto simp: NewMemoryStore_def tindex_of_Nil split: if_splits)
  from Store_all_time_index [OF this assms(2)]
  have eq: "GetByTimeRange ms start end =
           concat (map (\<lambda>b. filter (\<lambda>x. timeBucket (Timestamp x) = b
                                     \<and> start \<le> Timestamp x \<and> Timestamp x \<le> end) (logs ms))
                     [timeBucket start..timeBucket end])"
    by (rule GetByTimeRange_indexed)
  have "set (GetByTimeRange ms start end) =
          {x \<in> set (logs ms). start \<le> Timestamp x \<and> Timestamp x \<le> end}"
  proof (intro set_eqI iffI)
    fix x
    assume "x \<in> set (GetByTimeRange ms start end)"
    then show "x \<in> {x \<in> set (logs ms). start \<le> Timestamp x \<and> Timestamp x \<le> end}"
      by (auto simp: eq)
  next
    fix x
    assume "x \<in> {x \<in> set (logs ms). start \<le> Timestamp x \<and> Timestamp x \<le> end}"
    then have x: "x \<in> set (logs ms)" "start \<le> Timestamp x" "Timestamp x \<le> end"
      by simp_all
    from x(2,3) have "timeBucket start \<le> timeBucket (Timestamp x)"
      "timeBucket (Timestamp x) \<le> timeBucket end"
      by (simp_all add: timeBucket_mono)
    with x show "x \<in> set (GetByTimeRange ms start end)"
      by (auto simp: eq)
  qed
  with eq show ?thesis by blast
qed

theorem C6_GetByTimeRange_witness:
  "NewMemoryStore sample_lim 10 = Inr (empty_store 10)
   \<and> Store_all (empty_store 10) range_entries = Inr range_store
   \<and> GetByTimeRange range_store 60000000000 120000000000 =
       [sample_entry ''b'' 60000000000 ''ERROR'' ''at start'',
        sample_entry ''c'' 120000000000 ''INFO'' ''at end'']
   \<and> sample_entry ''a'' 0 ''INFO'' ''before''
       \<notin> set (GetByTimeRange range_store 60000000000 120000000000)
   \<and> sample_entry ''d'' 180000000000 ''ERROR'' ''after''
       \<notin> set (GetByTimeRange range_store 60000000000 120000000000)"
proof -
  have n: "NewMemoryStore sample_lim 10 = Inr (empty_store 10)"
    by (simp add: NewMemoryStore_def empty_store_def sample_lim_def word_sless_alt)
  note s = range_store_reached
  have l: "logs range_store = range_entries"
    by (simp add: range_store_def)
  from C6_GetByTimeRange [OF n s, of 60000000000 120000000000] n s show ?thesis
    by (simp add: l range_entries_def sample_buckets sample_entry_def upto.simps)
qed

section \<open>Properties of the alert manager\<close>

lemma clean_loop_eq:
  "clean_loop ls cutoff result = result @ filter (\<lambda>l. cutoff < timestamp l) ls"
  by (induction ls arbitrary: result) (simp_all add: After_def)

lemma cleanOldLogs_eq: "cleanOldLogs ls cutoff = filter (\<lambda>l. cutoff < timestamp l) ls"
  by (simp add: cleanOldLogs_def clean_loop_eq)

lemma contains_loop_iff:
  "contains_loop s sub i \<longleftrightarrow>
     (\<exists>j. i \<le> j \<and> j + length sub \<le> length s \<and> take (length sub) (drop j s) = sub)"
proof (induction s sub i rule: contains_loop.induct)
  case (1 s sub i)
  show ?case
  proof (cases "int i \<le> int (length s) - int (length sub)")
    case False
    then have "\<not> contains_loop s sub i" by (simp add: contains_loop.simps [of s sub i])
    moreover from False have "\<not> (\<exists>j. i \<le> j \<and> j + length sub \<le> length s
        \<and> take (length sub) (drop j s) = sub)" by auto
    ultimately show ?thesis by blast
  next
    case in_range: True
    show ?thesis
    proof (cases "take (length sub) (drop i s) = sub")
      case True
      with in_range have "contains_loop s sub i" by (simp add: contains_loop.simps [of s sub i])
      moreover from in_range True have "\<exists>j. i \<le> j \<and> j + length sub \<le> length s
        \<and> take (length sub) (drop j s) = sub" by (intro exI [of _ i]) auto
      ultimately show ?thesis by blast
    next
      case False
      with in_range have "contains_loop s sub i = contains_loop s sub (Suc i)"
        by (simp add: contains_loop.simps [of s sub i])
      also have "\<dots> \<longleftrightarrow> (\<exists>j. Suc i \<le> j \<and> j + length sub \<le> length s
          \<and> take (length sub) (drop j s) = sub)"
        using "1.IH" [OF in_range False] .
      also have "\<dots> \<longleftrightarrow> (\<exists>j. i \<le> j \<and> j + length sub \<le> length s
          \<and> take (length sub) (drop j s) = sub)"
        using False by (metis Suc_leD Suc_le_eq le_neq_implies_less)
      finally show ?thesis .
    qed
  qed
qed

lemma sublist_iff_take_drop:
  "sublist sub s \<longleftrightarrow> (\<exists>j. j + length sub \<le> length s \<and> take (length sub) (drop j s) = sub)"
proof
  assume "sublist sub s"
  then obtain ps ss where "s = ps @ sub @ ss" by (auto simp: sublist_def)
  then have "length ps + length sub \<le> length s \<and> take (length sub) (drop (length ps) s) = sub"
    by simp
  then show "\<exists>j. j + length sub \<le> length s \<and> take (length sub) (drop j s) = sub" ..
next
  assume "\<exists>j. j + length sub \<le> length s \<and> take (length sub) (drop j s) = sub"
  then obtain j where j: "j + length sub \<le> length s" "take (length sub) (drop j s) = sub"
    by blast
  have "take (length sub) (drop j s) @ drop (length sub) (drop j s) = drop j s"
    by (rule append_take_drop_id)
  then have "s = take j s @ take (length sub) (drop j s) @ drop (length sub) (drop j s)"
    by (simp only: append_take_drop_id)
  with j(2) have "s = take j s @ sub @ drop (length sub) (drop j s)" by simp
  then show "sublist sub s" unfolding sublist_def by blast
qed

lemma contains_iff_sublist: "contains s sub \<longleftrightarrow> sublist sub s"
  by (simp add: contains_def contains_loop_iff sublist_iff_take_drop)

lemma containsPattern_iff_sublist: "containsPattern msg pat \<longleftrightarrow> sublist pat msg"
proof (cases "pat = []")
  case True
  then show ?thesis by (simp add: containsPattern_def)
next
  case False
  have "sublist pat msg \<Longrightarrow> length pat \<le> length msg"
    by (auto simp: sublist_def)
  with False show ?thesis by (auto simp: containsPattern_def contains_iff_sublist)
qed

lemma count_loop_eq:
  "count_loop ls rule ws n =
     n + length (filter (\<lambda>l. ws < timestamp l \<and> level l = Level_r rule
                          \<and> (Pattern rule = [] \<or> sublist (Pattern rule) (message l))) ls)"
  by (induction ls arbitrary: n) (simp_all add: After_def containsPattern_iff_sublist)

lemma shouldTriggerAlert_iff:
  "shouldTriggerAlert am rule now \<longleftrightarrow>
     sint (Threshold rule)
       \<le> int (length (filter (\<lambda>l. Add now (- Window rule) < timestamp l
                                  \<and> level l = Level_r rule
                                  \<and> (Pattern rule = [] \<or> sublist (Pattern rule) (message l)))
                        (recentLogs am)))"
  by (simp add: shouldTriggerAlert_def Let_def count_loop_eq)

lemma Max_insert_absorb:
  fixes a b :: int
  assumes "finite S" "a \<le> b"
  shows "Max (insert a (insert b S)) = Max (insert b S)"
proof -
  have "b \<le> Max (insert b S)" using assms(1) by (intro Max_ge) simp_all
  with assms(2) have "a \<le> Max (insert b S)" by linarith
  moreover have "Max (insert a (insert b S)) = max a (Max (insert b S))"
    using assms(1) by (intro Max_insert) simp_all
  ultimately show ?thesis by (simp add: max_def)
qed

lemma maxWindow_loop_eq:
  "sint (maxWindow_loop rs mx) = Max (insert (sint mx) ((\<lambda>r. sint (Window r)) ` set rs))"
proof (induction rs arbitrary: mx)
  case Nil
  then show ?case by simp
next
  case (Cons r rs)
  have fin: "finite ((\<lambda>r. sint (Window r)) ` set rs)" by simp
  show ?case
  proof (cases "mx <s Window r")
    case True
    then have "sint mx \<le> sint (Window r)" by (simp add: word_sless_alt)
    from Max_insert_absorb [OF fin this] True Cons show ?thesis by simp
  next
    case False
    then have "sint (Window r) \<le> sint mx" by (simp add: word_sless_alt)
    from Max_insert_absorb [OF fin this] False Cons show ?thesis
      by (simp add: insert_commute)
  qed
qed

lemma sint_Minute: "sint Minute = 60000000000"
  by (simp add: Minute_def)

lemma getMaxWindow_eq:
  "sint (getMaxWindow am) = Max (insert 60000000000 ((\<lambda>r. sint (Window r)) ` set (rules am)))"
  by (simp add: getMaxWindow_def maxWindow_loop_eq sint_Minute)

lemma shouldTriggerAlert_chan [simp]:
  "shouldTriggerAlert (am\<lparr>alertChannel := ch\<rparr>) r now = shouldTriggerAlert am r now"
  by (simp add: shouldTriggerAlert_def)

lemma check_rules_keeps:
  "check_rules fmt_v clk i rs am = Inr am' \<Longrightarrow>
     recentLogs am' = recentLogs am \<and> rules am' = rules am"
proof (induction rs arbitrary: i am)
  case Nil
  then show ?case by simp
next
  case (Cons r rs)
  show ?case
  proof (cases "shouldTriggerAlert am r (atRule clk i)")
    case False
    with Cons.prems have "check_rules fmt_v clk (Suc i) rs am = Inr am'" by simp
    from Cons.IH [OF this] show ?thesis .
  next
    case True
    with Cons.prems obtain sent ch where
      "check_rules fmt_v clk (Suc i) rs (am\<lparr>alertChannel := ch\<rparr>) = Inr am'"
      by (auto simp: Let_def split: sum.splits)
    from Cons.IH [OF this] show ?thesis by simp
  qed
qed

lemma check_rules_sent:
  "check_rules fmt_v clk i rs am = Inr am' \<Longrightarrow>
     \<exists>sent. buf (alertChannel am') = buf (alertChannel am) @ sent
       \<and> (\<forall>a \<in> set sent. \<exists>r \<in> set rs.
             RuleName a = Name r \<and> Count_a a = Threshold r
             \<and> Message_a a = alert_message fmt_v r)"
proof (induction rs arbitrary: i am)
  case Nil
  then show ?case by simp
next
  case (Cons r rs)
  show ?case
  proof (cases "shouldTriggerAlert am r (atRule clk i)")
    case False
    with Cons.prems have "check_rules fmt_v clk (Suc i) rs am = Inr am'" by simp
    from Cons.IH [OF this] show ?thesis by auto
  next
    case True
    let ?alert = "\<lparr>RuleName = Name r, Message_a = alert_message fmt_v r,
                       Count_a = Threshold r, Timestamp_a = atAlert clk i\<rparr>"
    from True Cons.prems obtain sent ch where
      t: "try_send (alertChannel am) ?alert = Inr (sent, ch)" and
      c: "check_rules fmt_v clk (Suc i) rs (am\<lparr>alertChannel := ch\<rparr>) = Inr am'"
      by (auto simp: Let_def split: sum.splits)
    from Cons.IH [OF c] obtain more where
      m: "buf (alertChannel am') = buf ch @ more"
         "\<forall>a \<in> set more. \<exists>r \<in> set rs.
             RuleName a = Name r \<and> Count_a a = Threshold r
             \<and> Message_a a = alert_message fmt_v r"
      by auto
    from t have "buf ch = buf (alertChannel am) \<or> buf ch = buf (alertChannel am) @ [?alert]"
      by (auto simp: try_send_def split: if_splits)
    then show ?thesis
    proof
      assume "buf ch = buf (alertChannel am)"
      with m show ?thesis by auto
    next
      assume "buf ch = buf (alertChannel am) @ [?alert]"
      with m(1) have "buf (alertChannel am') = buf (alertChannel am) @ (?alert # more)" by simp
      moreover from m(2) have "\<forall>a \<in> set (?alert # more). \<exists>r' \<in> set (r # rs).
             RuleName a = Name r' \<and> Count_a a = Threshold r'
             \<and> Message_a a = alert_message fmt_v r'" by auto
      ultimately show ?thesis by blast
    qed
  qed
qed

lemma check_rules_roomy:
  assumes "\<not> closed (alertChannel am)"
    and "length (buf (alertChannel am)) + length rs \<le> cap (alertChannel am)"
  shows "\<exists>am'. check_rules fmt_v clk i rs am = Inr am'
     \<and> buf (alertChannel am') = buf (alertChannel am)
         @ map (\<lambda>(j, r). \<lparr>RuleName = Name r, Message_a = alert_message fmt_v r,
                            Count_a = Threshold r, Timestamp_a = atAlert clk j\<rparr>)
             (filter (\<lambda>(j, r). shouldTriggerAlert am r (atRule clk j)) (enumerate i rs))"
  using assms
proof (induction rs arbitrary: i am)
  case Nil
  then show ?case by simp
next
  case (Cons r rs)
  show ?case
  proof (cases "shouldTriggerAlert am r (atRule clk i)")
    case False
    from Cons.prems have "length (buf (alertChannel am)) + length rs \<le> cap (alertChannel am)"
      by simp
    from Cons.IH [OF Cons.prems(1) this, of "Suc i"] False show ?thesis by simp
  next
    case True
    let ?alert = "\<lparr>RuleName = Name r, Message_a = alert_message fmt_v r,
                       Count_a = Threshold r, Timestamp_a = atAlert clk i\<rparr>"
    let ?ch = "(alertChannel am)\<lparr>buf := buf (alertChannel am) @ [?alert]\<rparr>"
    let ?am = "am\<lparr>alertChannel := ?ch\<rparr>"
    from Cons.prems have t: "try_send (alertChannel am) ?alert = Inr (True, ?ch)"
      by (simp add: try_send_def)
    from Cons.prems have "\<not> closed (alertChannel ?am)"
      "length (buf (alertChannel ?am)) + length rs \<le> cap (alertChannel ?am)"
      by simp_all
    from Cons.IH [OF this, of "Suc i"] True t show ?thesis
      by (simp add: Let_def)
  qed
qed

lemma getMaxWindow_ge_Minute: "60000000000 \<le> sint (getMaxWindow am)"
  unfolding getMaxWindow_eq by (intro Max_ge) simp_all

lemma Add_neg_getMaxWindow: "Add t (- getMaxWindow am) = t - sint (getMaxWindow am)"
proof -
  from getMaxWindow_ge_Minute [of am] have "sint (getMaxWindow am) \<noteq> - 9223372036854775808"
    by linarith
  then show ?thesis by (simp add: Add_def sint_neg64)
qed

lemma getMaxWindow_recentLogs [simp]:
  "getMaxWindow (am\<lparr>recentLogs := ls\<rparr>) = getMaxWindow am"
  by (simp add: getMaxWindow_def)

lemma ProcessLog_window:
  assumes "ProcessLog fmt_v am log clk = Inr am'"
  shows "recentLogs am' =
           filter (\<lambda>l. atClean clk - sint (getMaxWindow am) < timestamp l)
             (recentLogs am
                @ [\<lparr>timestamp = Timestamp log, level = Level log, message = Message log\<rparr>])"
    and "rules am' = rules am"
  using check_rules_keeps [OF assms [unfolded ProcessLog_def Let_def]]
  by (simp_all add: cleanOldLogs_eq Add_neg_getMaxWindow)

lemma ProcessLog_roomy:
  assumes "\<not> closed (alertChannel am)"
    and "length (buf (alertChannel am)) + length (rules am) \<le> cap (alertChannel am)"
  shows "\<exists>am'. ProcessLog fmt_v am log clk = Inr am'
     \<and> buf (alertChannel am') = buf (alertChannel am)
         @ map (\<lambda>(i, r). \<lparr>RuleName = Name r, Message_a = alert_message fmt_v r,
                            Count_a = Threshold r, Timestamp_a = atAlert clk i\<rparr>)
             (filter (\<lambda>(i, r). shouldTriggerAlert am' r (atRule clk i))
                (enumerate 0 (rules am)))"
proof -
  let ?am1 = "am\<lparr>recentLogs := recentLogs am
                   @ [\<lparr>timestamp = Timestamp log, level = Level log, message = Message log\<rparr>]\<rparr>"
  let ?am2 = "?am1\<lparr>recentLogs := cleanOldLogs (recentLogs ?am1)
                 (Add (atClean clk) (- getMaxWindow ?am1))\<rparr>"
  have p: "ProcessLog fmt_v am log clk = check_rules fmt_v clk 0 (rules ?am2) ?am2"
    by (simp add: ProcessLog_def Let_def)
  from assms have "\<not> closed (alertChannel ?am2)"
    "length (buf (alertChannel ?am2)) + length (rules ?am2) \<le> cap (alertChannel ?am2)"
    by simp_all
  from check_rules_roomy [OF this, of fmt_v clk 0] obtain am' where
    c: "check_rules fmt_v clk 0 (rules ?am2) ?am2 = Inr am'" and
    b: "buf (alertChannel am') = buf (alertChannel ?am2)
         @ map (\<lambda>(i, r). \<lparr>RuleName = Name r, Message_a = alert_message fmt_v r,
                            Count_a = Threshold r, Timestamp_a = atAlert clk i\<rparr>)
             (filter (\<lambda>(i, r). shouldTriggerAlert ?am2 r (atRule clk i))
                (enumerate 0 (rules ?am2)))"
    by blast
  from check_rules_keeps [OF c] have "recentLogs am' = recentLogs ?am2" by simp
  then have "shouldTriggerAlert am' r t = shouldTriggerAlert ?am2 r t" for r t
    by (simp add: shouldTriggerAlert_def)
  with b have "buf (alertChannel am') = buf (alertChannel am)
         @ map (\<lambda>(i, r). \<lparr>RuleName = Name r, Message_a = alert_message fmt_v r,
                            Count_a = Threshold r, Timestamp_a = atAlert clk i\<rparr>)
             (filter (\<lambda>(i, r). shouldTriggerAlert am' r (atRule clk i))
                (enumerate 0 (rules am)))"
    by simp
  with p c show ?thesis by auto
qed

lemma am_with_initial: "AddRule NewAlertManager (error_rule n) = am_with n [] []"
  by (simp add: AddRule_def NewAlertManager_def am_with_def)

lemmas sample_defs =
  am_with_def error_rule_def error_at_def summary_at_def clock_at_def error_alert_def
  sample_entry_def sample_fmt_v_def

lemmas alert_defs =
  ProcessLog_def getMaxWindow_def Minute_def cleanOldLogs_def shouldTriggerAlert_def
  alert_message_def try_send_def Add_def After_def Let_def word_sless_alt

lemma sample_run_1: "ProcessLog sample_fmt_v (am_with 3 [] []) (error_at 100) (clock_at 100)
   = Inr (am_with 3 [summary_at 100] [])"
  by (simp add: sample_defs alert_defs)

lemma sample_run_2: "ProcessLog sample_fmt_v (am_with 3 [summary_at 100] []) (error_at 110) (clock_at 110)
   = Inr (am_with 3 [summary_at 100, summary_at 110] [])"
  by (simp add: sample_defs alert_defs)

lemma fmt_d_3: "fmt_d 3 = ''3''"
  by (simp add: fmt_d_def show_nat.simps [of 3] digit_def)

lemma sample_run_3: "ProcessLog sample_fmt_v (am_with 3 [summary_at 100, summary_at 110] []) (error_at 120) (clock_at 120)
   = Inr (am_with 3 [summary_at 100, summary_at 110, summary_at 120] [error_alert 3 120])"
  by (simp add: sample_defs alert_defs)

section \<open>Claims about the alert manager\<close>

text \<open>
  C3, as stated, fails at both ends of the interval. An entry whose timestamp is
  exactly \<open>now - window\<close> is inside the closed interval of the claim, which therefore
  counts one entry and, with threshold 1, demands an alert; \<open>shouldTriggerAlert\<close> asks for
  a timestamp strictly after \<open>now - window\<close> and no alert is sent. An entry whose timestamp
  lies after \<open>now\<close> is outside the interval of the claim, which counts nothing;
  \<open>shouldTriggerAlert\<close> has no upper bound, counts it and an alert is sent.
\<close>

theorem C3_interval_ends_differ:
  "map_sum id (buf \<circ> alertChannel)
     (ProcessLog sample_fmt_v (am_with 1 [] [])
        (sample_entry ''e'' 70000001000 ''ERROR'' ''boom'') (clock_at 100)) = Inr []
   \<and> map_sum id recentLogs
       (ProcessLog sample_fmt_v (am_with 1 [] [])
          (sample_entry ''e'' 70000001000 ''ERROR'' ''boom'') (clock_at 100))
       = Inr [\<lparr>timestamp = 70000001000, level = ''ERROR'', message = ''boom''\<rparr>]
   \<and> sint (Threshold (error_rule 1))
       \<le> int (spec_window_count
                [\<lparr>timestamp = 70000001000, level = ''ERROR'', message = ''boom''\<rparr>]
                (error_rule 1) (atRule (clock_at 100) 0))
   \<and> map_sum id (buf \<circ> alertChannel)
       (ProcessLog sample_fmt_v (am_with 1 [] []) (error_at 200) (clock_at 100))
       = Inr [error_alert 1 100]
   \<and> map_sum id recentLogs
       (ProcessLog sample_fmt_v (am_with 1 [] []) (error_at 200) (clock_at 100))
       = Inr [summary_at 200]
   \<and> \<not> sint (Threshold (error_rule 1))
         \<le> int (spec_window_count [summary_at 200] (error_rule 1) (atRule (clock_at 100) 0))"
  by (simp add: sample_defs alert_defs spec_window_count_def)

text \<open>
  C3, amended: on each \<open>ProcessLog\<close> call whose alert channel is open and has room, for
  every configured rule the evaluator counts exactly the window entries (the window after
  this call's pruning) whose level equals the rule's level, whose message contains the
  rule's pattern as a substring (an empty pattern matches everything) and whose timestamp
  is strictly later than \<open>now - rule.window\<close>, computed as \<open>now.Add(-rule.window)\<close>; there
  is no upper bound, so entries with timestamps after \<open>now\<close> are counted. An alert is sent
  for the rule if and only if this count is at least the rule's threshold, and the alerts
  are queued in rule order. Here \<open>now\<close> is the clock reading taken when the rule is
  evaluated.
\<close>

theorem C3_alert_iff_count_reaches_threshold:
  assumes "\<not> closed (alertChannel am)"
    and "length (buf (alertChannel am)) + length (rules am) \<le> cap (alertChannel am)"
  shows "\<exists>am'. ProcessLog fmt_v am log clk = Inr am'
     \<and> buf (alertChannel am') = buf (alertChannel am)
         @ map (\<lambda>(i, r). \<lparr>RuleName = Name r, Message_a = alert_message fmt_v r,
                            Count_a = Threshold r, Timestamp_a = atAlert clk i\<rparr>)
             (filter (\<lambda>(i, r). sint (Threshold r)
                        \<le> int (length (filter (\<lambda>l. Add (atRule clk i) (- Window r) < timestamp l
                                                   \<and> level l = Level_r r
                                                   \<and> (Pattern r = []
                                                        \<or> sublist (Pattern r) (message l)))
                                         (recentLogs am'))))
                (enumerate 0 (rules am)))"
  using ProcessLog_roomy [OF assms, of fmt_v log clk]
  by (simp add: shouldTriggerAlert_iff)

theorem C3_alert_iff_count_reaches_threshold_witness:
  "\<not> closed (alertChannel (am_with 3 [summary_at 100] []))
   \<and> length (buf (alertChannel (am_with 3 [summary_at 100] [])))
         + length (rules (am_with 3 [summary_at 100] []))
       \<le> cap (alertChannel (am_with 3 [summary_at 100] []))
   \<and> ProcessLog sample_fmt_v (am_with 3 [summary_at 100] []) (error_at 110) (clock_at 110)
       = Inr (am_with 3 [summary_at 100, summary_at 110] [])
   \<and> \<not> closed (alertChannel (am_with 3 [summary_at 100, summary_at 110] []))
   \<and> length (buf (alertChannel (am_with 3 [summary_at 100, summary_at 110] [])))
         + length (rules (am_with 3 [summary_at 100, summary_at 110] []))
       \<le> cap (alertChannel (am_with 3 [summary_at 100, summary_at 110] []))
   \<and> (\<exists>am'. ProcessLog sample_fmt_v (am_with 3 [summary_at 100, summary_at 110] [])
               (error_at 120) (clock_at 120) = Inr am'
          \<and> recentLogs am' = [summary_at 100, summary_at 110, summary_at 120]
          \<and> buf (alertChannel am')
              = [\<lparr>RuleName = ''errors'',
                  Message_a = ''Alert: errors triggered! 3 ERROR logs in last 30s'',
                  Count_a = 3, Timestamp_a = 120000002000\<rparr>])"
proof -
  have h1: "\<not> closed (alertChannel (am_with 3 [summary_at 100, summary_at 110] []))"
    by (simp add: am_with_def)
  have h2: "length (buf (alertChannel (am_with 3 [summary_at 100, summary_at 110] [])))
         + length (rules (am_with 3 [summary_at 100, summary_at 110] []))
       \<le> cap (alertChannel (am_with 3 [summary_at 100, summary_at 110] []))"
    by (simp add: am_with_def)
  have r: "recentLogs (am_with 3 [summary_at 100, summary_at 110, summary_at 120]
             [error_alert 3 120]) = [summary_at 100, summary_at 110, summary_at 120]"
    by (simp add: am_with_def)
  have a: "error_alert 3 120 = \<lparr>RuleName = ''errors'',
                  Message_a = ''Alert: errors triggered! 3 ERROR logs in last 30s'',
                  Count_a = 3, Timestamp_a = 120000002000\<rparr>"
    by (simp add: error_alert_def fmt_d_3)
  from C3_alert_iff_count_reaches_threshold
         [OF h1 h2, of sample_fmt_v "error_at 120" "clock_at 120"]
  obtain am' where
    p: "ProcessLog sample_fmt_v (am_with 3 [summary_at 100, summary_at 110] [])
       (error_at 120) (clock_at 120) = Inr am'"
    by blast
  with sample_run_3 have
    "am' = am_with 3 [summary_at 100, summary_at 110, summary_at 120] [error_alert 3 120]"
    by simp
  with r a have "recentLogs am' = [summary_at 100, summary_at 110, summary_at 120]
      \<and> buf (alertChannel am')
          = [\<lparr>RuleName = ''errors'',
              Message_a = ''Alert: errors triggered! 3 ERROR logs in last 30s'',
              Count_a = 3, Timestamp_a = 120000002000\<rparr>]"
    by (simp add: am_with_def)
  with p have "\<exists>am'. ProcessLog sample_fmt_v
        (am_with 3 [summary_at 100, summary_at 110] []) (error_at 120) (clock_at 120) = Inr am'
      \<and> recentLogs am' = [summary_at 100, summary_at 110, summary_at 120]
      \<and> buf (alertChannel am')
          = [\<lparr>RuleName = ''errors'',
              Message_a = ''Alert: errors triggered! 3 ERROR logs in last 30s'',
              Count_a = 3, Timestamp_a = 120000002000\<rparr>]"
    by blast
  with h1 h2 sample_run_2 show ?thesis by (simp add: am_with_def)
qed

text \<open>
  C4, as stated, fails: with a single rule whose window is 30 seconds, the claim puts the
  retention horizon at 30 seconds and removes an entry that is 45 seconds old;
  \<open>getMaxWindow\<close> starts from one minute whatever the rules are, and the entry is kept.
\<close>

theorem C4_minute_floor_with_rules:
  "rules (am_with 3 [] []) \<noteq> []
   \<and> map_sum id recentLogs
       (ProcessLog sample_fmt_v (am_with 3 [] []) (error_at 55) (clock_at 100))
       = Inr [summary_at 55]
   \<and> spec_pruned [summary_at 55] (atClean (clock_at 100)) (rules (am_with 3 [] [])) = []
   \<and> sint (getMaxWindow (am_with 3 [] [])) = 60000000000
   \<and> spec_horizon (rules (am_with 3 [] [])) = 30000000000"
  by (simp add: sample_defs alert_defs spec_pruned_def spec_horizon_def)

text \<open>
  C4, amended: on each \<open>ProcessLog\<close> call that returns, the rolling window (with the new
  entry appended) keeps exactly the entries whose timestamp is strictly later than
  \<open>now\<close> minus the horizon and removes all others, where the horizon is the larger of
  one minute and the widest configured rule window: the floor of one minute applies
  whether or not rules are configured.
\<close>

theorem C4_retention_horizon:
  assumes "ProcessLog fmt_v am log clk = Inr am'"
  shows "recentLogs am' =
           filter (\<lambda>l. atClean clk - sint (getMaxWindow am) < timestamp l)
             (recentLogs am
                @ [\<lparr>timestamp = Timestamp log, level = Level log, message = Message log\<rparr>])
         \<and> sint (getMaxWindow am) =
             Max (insert 60000000000 ((\<lambda>r. sint (Window r)) ` set (rules am)))"
  using ProcessLog_window(1) [OF assms] getMaxWindow_eq [of am] by simp

theorem C4_retention_horizon_witness:
  "ProcessLog sample_fmt_v (am_with 3 [summary_at 40, summary_at 55] []) (error_at 100)
     (clock_at 100) = Inr (am_with 3 [summary_at 55, summary_at 100] [])
   \<and> recentLogs (am_with 3 [summary_at 55, summary_at 100] [])
       = [summary_at 55, summary_at 100]
   \<and> sint (getMaxWindow (am_with 3 [summary_at 40, summary_at 55] [])) = 60000000000"
proof -
  have e: "ProcessLog sample_fmt_v (am_with 3 [summary_at 40, summary_at 55] []) (error_at 100)
     (clock_at 100) = Inr (am_with 3 [summary_at 55, summary_at 100] [])"
    by (simp add: sample_defs alert_defs)
  from C4_retention_horizon [OF e] e show ?thesis
    by (simp add: sample_defs)
qed

text \<open>
  C9: every alert that a \<open>ProcessLog\<close> call queues on the alert channel (whose
  capacity is 100 in every manager that \<open>NewAlertManager\<close> builds) comes from a
  configured rule, its
  \<open>Count\<close> is that rule's threshold and its message renders the threshold, whatever the
  number of window entries that matched.
\<close>

theorem C9_alert_count_is_threshold:
  assumes "ProcessLog fmt_v am log clk = Inr am'" and "0 < cap (alertChannel am)"
  shows "\<exists>sent. buf (alertChannel am') = buf (alertChannel am) @ sent
     \<and> (\<forall>a \<in> set sent. \<exists>r \<in> set (rules am).
           RuleName a = Name r \<and> Count_a a = Threshold r
           \<and> Message_a a = ''Alert: '' @ Name r @ '' triggered! ''
                 @ fmt_d (sint (Threshold r)) @ '' '' @ Level_r r @ '' logs in last ''
                 @ fmt_v (Window r))"
  using check_rules_sent [OF assms(1) [unfolded ProcessLog_def Let_def]]
  by (simp add: alert_message_def)

theorem C9_alert_count_is_threshold_witness:
  "0 < cap (alertChannel
         (am_with 3 [summary_at 100, summary_at 101, summary_at 102, summary_at 103] []))
   \<and> ProcessLog sample_fmt_v
     (am_with 3 [summary_at 100, summary_at 101, summary_at 102, summary_at 103] [])
     (error_at 104) (clock_at 104)
     = Inr (am_with 3
              [summary_at 100, summary_at 101, summary_at 102, summary_at 103, summary_at 104]
              [error_alert 3 104])
   \<and> length (filter (\<lambda>l. Add (atRule (clock_at 104) 0) (- Window (error_rule 3)) < timestamp l
                        \<and> level l = Level_r (error_rule 3))
               [summary_at 100, summary_at 101, summary_at 102, summary_at 103, summary_at 104])
       = 5
   \<and> Count_a (error_alert 3 104) = 3
   \<and> Message_a (error_alert 3 104) = ''Alert: errors triggered! 3 ERROR logs in last 30s''
   \<and> (\<exists>sent. buf (alertChannel (am_with 3
              [summary_at 100, summary_at 101, summary_at 102, summary_at 103, summary_at 104]
              [error_alert 3 104])) = sent
          \<and> (\<forall>a \<in> set sent. Count_a a = 3))"
proof -
  have e: "ProcessLog sample_fmt_v
     (am_with 3 [summary_at 100, summary_at 101, summary_at 102, summary_at 103] [])
     (error_at 104) (clock_at 104)
     = Inr (am_with 3
              [summary_at 100, summary_at 101, summary_at 102, summary_at 103, summary_at 104]
              [error_alert 3 104])"
    by (simp add: sample_defs alert_defs)
  have m: "Message_a (error_alert 3 104) = ''Alert: errors triggered! 3 ERROR logs in last 30s''"
    by (simp add: error_alert_def fmt_d_3)
  have c: "0 < cap (alertChannel
      (am_with 3 [summary_at 100, summary_at 101, summary_at 102, summary_at 103] []))"
    by (simp add: am_with_def)
  from C9_alert_count_is_threshold [OF e c] e m show ?thesis
    by (simp add: sample_defs Add_def)
qed

section \<open>Claims about the ingestor and the constructors\<close>

lemma ingestor_with_new:
  "NewIngestor sample_lim (empty_store 10) None wc 2 0 = Inr (ingestor_with wc [] False 0)"
  by (simp add: NewIngestor_def make_chan_def ingestor_with_def sample_lim_def word_sless_alt)

lemma ingestor_with_stop:
  "Stop (ingestor_with wc q False d) = Inr (ingestor_with wc q True d)"
  by (simp add: Stop_def close_chan_def ingestor_with_def)

text \<open>
  C7, as stated, fails: once \<open>Stop\<close> has closed the queue, \<open>Ingest\<close> neither enqueues
  nor drops; the send on the closed channel panics, although the queue has free space.
\<close>

theorem C7_ingest_after_stop_panics:
  "NewIngestor sample_lim (empty_store 10) None 20 2 0 = Inr (ingestor_with 20 [] False 0)
   \<and> Stop (ingestor_with 20 [] False 0) = Inr (ingestor_with 20 [] True 0)
   \<and> length (buf (logChannel (ingestor_with 20 [] True 0)))
       < cap (logChannel (ingestor_with 20 [] True 0))
   \<and> Ingest (ingestor_with 20 [] True 0) (error_at 1) = Inl SendOnClosedChannel"
  by (simp add: ingestor_with_new ingestor_with_stop)
     (simp add: Ingest_def try_send_def ingestor_with_def)

text \<open>
  C7, amended: \<open>Ingest\<close> never blocks. For every call on an ingestor whose queue has a
  buffer (capacity at least 1) and has not been closed by \<open>Stop\<close>: if the queue has free
  space the entry is appended to it and \<open>Ingest\<close> returns success with both counters
  unchanged; if the queue is full the entry is discarded, the queue is unchanged, the
  dropped counter (an unsigned 64-bit counter) is incremented by one and \<open>Ingest\<close>
  returns failure. A call on an ingestor whose queue has been closed panics.
\<close>

theorem C7_ingest_enqueues_or_drops:
  "(\<not> closed (logChannel ing) \<and> 0 < cap (logChannel ing)
      \<and> length (buf (logChannel ing)) < cap (logChannel ing) \<longrightarrow>
        (\<exists>ing'. Ingest ing entry = Inr (True, ing')
           \<and> buf (logChannel ing') = buf (logChannel ing) @ [entry]
           \<and> stats ing' = stats ing))
   \<and> (\<not> closed (logChannel ing) \<and> 0 < cap (logChannel ing)
      \<and> \<not> length (buf (logChannel ing)) < cap (logChannel ing) \<longrightarrow>
        (\<exists>ing'. Ingest ing entry = Inr (False, ing')
           \<and> logChannel ing' = logChannel ing
           \<and> TotalDropped (stats ing') = TotalDropped (stats ing) + 1
           \<and> TotalProcessed (stats ing') = TotalProcessed (stats ing)))
   \<and> (closed (logChannel ing) \<longrightarrow> Ingest ing entry = Inl SendOnClosedChannel)"
  by (simp add: Ingest_def try_send_def)

theorem C7_ingest_enqueues_or_drops_witness:
  "\<not> closed (logChannel (ingestor_with 20 [error_at 1] False 7))
   \<and> 0 < cap (logChannel (ingestor_with 20 [error_at 1] False 7))
   \<and> length (buf (logChannel (ingestor_with 20 [error_at 1] False 7)))
       < cap (logChannel (ingestor_with 20 [error_at 1] False 7))
   \<and> Ingest (ingestor_with 20 [error_at 1] False 7) (error_at 2)
       = Inr (True, ingestor_with 20 [error_at 1, error_at 2] False 7)
   \<and> \<not> closed (logChannel (ingestor_with 20 [error_at 1, error_at 2] False 7))
   \<and> 0 < cap (logChannel (ingestor_with 20 [error_at 1, error_at 2] False 7))
   \<and> \<not> length (buf (logChannel (ingestor_with 20 [error_at 1, error_at 2] False 7)))
         < cap (logChannel (ingestor_with 20 [error_at 1, error_at 2] False 7))
   \<and> Ingest (ingestor_with 20 [error_at 1, error_at 2] False 7) (error_at 3)
       = Inr (False, ingestor_with 20 [error_at 1, error_at 2] False 8)
   \<and> closed (logChannel (ingestor_with 20 [error_at 1] True 7))
   \<and> Ingest (ingestor_with 20 [error_at 1] True 7) (error_at 2) = Inl SendOnClosedChannel"
proof -
  have e1: "Ingest (ingestor_with 20 [error_at 1] False 7) (error_at 2)
       = Inr (True, ingestor_with 20 [error_at 1, error_at 2] False 7)"
    and e2: "Ingest (ingestor_with 20 [error_at 1, error_at 2] False 7) (error_at 3)
       = Inr (False, ingestor_with 20 [error_at 1, error_at 2] False 8)"
    by (simp_all add: Ingest_def try_send_def ingestor_with_def)
  from C7_ingest_enqueues_or_drops [of "ingestor_with 20 [error_at 1] False 7" "error_at 2"]
       C7_ingest_enqueues_or_drops
         [of "ingestor_with 20 [error_at 1, error_at 2] False 7" "error_at 3"]
       C7_ingest_enqueues_or_drops [of "ingestor_with 20 [error_at 1] True 7" "error_at 2"]
       e1 e2
  show ?thesis by (simp add: ingestor_with_def)
qed

text \<open>
  C8, as stated, fails: a dispatcher with zero workers and a store with capacity zero are
  constructed without any error, and both instances accept calls.
\<close>

theorem C8_zero_configuration_accepted:
  "NewIngestor sample_lim (empty_store 10) None 0 2 0 = Inr (ingestor_with 0 [] False 0)
   \<and> workerCount (ingestor_with 0 [] False 0) = 0
   \<and> Ingest (ingestor_with 0 [] False 0) (error_at 1)
       = Inr (True, ingestor_with 0 [error_at 1] False 0)
   \<and> NewMemoryStore sample_lim 0 = Inr (empty_store 0)
   \<and> map_sum id Count (Store (empty_store 0) (error_at 1)) = Inr 1"
  by (simp add: ingestor_with_new)
     (simp add: Ingest_def try_send_def ingestor_with_def NewMemoryStore_def empty_store_def
        sample_lim_def
        Store_def evictOldest_def slice_from_def Count_def Let_def word_sless_alt)

text \<open>
  C8, amended: the constructors validate nothing. \<open>NewMemoryStore\<close> returns an empty store
  with the given capacity for every capacity from zero up to the allocation bound of the
  runtime, zero included, and that store accepts \<open>Store\<close> calls; only a negative capacity
  or one beyond the bound fails at construction, by the runtime panic of \<open>make\<close>.
  \<open>NewIngestor\<close> returns an ingestor with the given worker count, whatever it is, and an
  empty open queue for every queue capacity from zero up to the bound; only a negative
  queue capacity or one beyond the bound fails at construction, by the runtime panic of
  \<open>make\<close>.
\<close>

theorem C8_constructors_do_not_validate:
  "(0 \<le>s n \<and> sint n \<le> lim \<longrightarrow>
      (\<exists>ms. NewMemoryStore lim n = Inr ms \<and> Count ms = 0 \<and> maxLogs ms = n
         \<and> (\<exists>ms'. Store ms e = Inr ms')))
   \<and> (n <s 0 \<or> lim < sint n \<longrightarrow> NewMemoryStore lim n = Inl MakeSliceCapOutOfRange)
   \<and> (0 \<le>s bufferSize \<and> sint bufferSize \<le> lim \<longrightarrow>
        (\<exists>ing. NewIngestor lim st alertMgr wc bufferSize now = Inr ing
           \<and> workerCount ing = wc \<and> buf (logChannel ing) = []
           \<and> cap (logChannel ing) = nat (sint bufferSize) \<and> \<not> closed (logChannel ing)))
   \<and> (bufferSize <s 0 \<or> lim < sint bufferSize \<longrightarrow>
        NewIngestor lim st alertMgr wc bufferSize now = Inl MakeChanSizeOutOfRange)"
proof -
  have "\<exists>ms'. Store \<lparr>logs = [], indexByLevel = Map.empty, buckets = Map.empty, maxLogs = n\<rparr> e
          = Inr ms'" if "0 \<le>s n"
  proof -
    from that have "0 \<le> sint (maxLogs \<lparr>logs = [], indexByLevel = Map.empty,
        buckets = Map.empty, maxLogs = n\<rparr>)"
      by (simp add: word_sle_eq)
    from Store_logs [OF this, of e] show ?thesis by blast
  qed
  then show ?thesis
    by (auto simp: NewMemoryStore_def NewIngestor_def make_chan_def Count_def
          word_sle_eq word_sless_alt)
qed

theorem C8_constructors_do_not_validate_witness:
  "(0 :: go_int) \<le>s 0 \<and> sint (0 :: go_int) \<le> sample_lim
   \<and> (\<exists>ms. NewMemoryStore sample_lim 0 = Inr ms \<and> Count ms = 0 \<and> maxLogs ms = 0
          \<and> (\<exists>ms'. Store ms (error_at 1) = Inr ms'))
   \<and> (- 1 :: go_int) <s 0
   \<and> NewMemoryStore sample_lim (- 1) = Inl MakeSliceCapOutOfRange
   \<and> (0 :: go_int) \<le>s 2 \<and> sint (2 :: go_int) \<le> sample_lim
   \<and> (\<exists>ing. NewIngestor sample_lim (empty_store 10) None 0 2 0 = Inr ing
          \<and> workerCount ing = 0 \<and> buf (logChannel ing) = [] \<and> cap (logChannel ing) = 2)
   \<and> NewIngestor sample_lim (empty_store 10) None 20 (- 1) 0 = Inl MakeChanSizeOutOfRange"
  using C8_constructors_do_not_validate
          [of 0 sample_lim "error_at 1" 2 "empty_store 10" None 0 0]
    C8_constructors_do_not_validate
          [of "- 1" sample_lim "error_at 1" "- 1" "empty_store 10" None 20 0]
  by (auto simp: word_sle_eq word_sless_alt sample_lim_def)

end
